theory Spec2Isabelle
  imports Complex_Main
begin

section \<open>JavaScript values as the client uses them\<close>

text \<open>
  The client of \<^verbatim>\<open>src/MobileAnalyticsClient.js\<close> is an ES module, so all of its code is
  strict-mode code.  Numbers are either a finite value or \<^verbatim>\<open>NaN\<close>; the infinities are
  left out because no path of the client produces or tests them.  \<open>JObject\<close> stands for a
  plain object without a \<^verbatim>\<open>length\<close> property.

  A finite number is the real value of a double.  The result of an arithmetic operation
  is the exact result rounded to the nearest double, ties to the even significand
  (\<open>roundDouble\<close>): \<open>ulp x\<close> is the distance of neighbouring doubles in the binade of
  \<open>x\<close>, with 53 significant bits.  The exponent range is not bounded: overflow needs a
  magnitude of 2 to the power 1024 and gradual underflow one below 2 to the power -1022,
  which differences, squares and quotients of millisecond timestamps do not reach.
\<close>

datatype jsnum = Num real | NaN

datatype jsval = JUndefined | JNull | JBool bool | JNumber jsnum | JString string | JObject

datatype jsError = TypeError

fun typeof :: "jsval \<Rightarrow> string" where
  "typeof JUndefined = ''undefined''"
| "typeof JNull = ''object''"
| "typeof (JBool b) = ''boolean''"
| "typeof (JNumber n) = ''number''"
| "typeof (JString s) = ''string''"
| "typeof JObject = ''object''"

fun truthy :: "jsval \<Rightarrow> bool" where
  "truthy JUndefined = False"
| "truthy JNull = False"
| "truthy (JBool b) = b"
| "truthy (JNumber (Num x)) = (x \<noteq> 0)"
| "truthy (JNumber NaN) = False"
| "truthy (JString s) = (s \<noteq> [])"
| "truthy JObject = True"

definition roundEven :: "real \<Rightarrow> int" where
  "roundEven y =
     (let f = \<lfloor>y\<rfloor>; r = y - of_int f
      in if r < 1 / 2 then f
         else if 1 / 2 < r then f + 1
         else if even f then f else f + 1)"

definition ulp :: "real \<Rightarrow> real" where
  "ulp x = 2 powr of_int (\<lfloor>log 2 \<bar>x\<bar>\<rfloor> - 52)"

definition roundDouble :: "real \<Rightarrow> real" where
  "roundDouble x =
     (if x = 0 then 0
      else sgn x * (ulp x * of_int (roundEven (\<bar>x\<bar> / ulp x))))"

text \<open>The binary minus on numbers: anything with \<^verbatim>\<open>NaN\<close> is \<^verbatim>\<open>NaN\<close>.\<close>

fun jsMinus :: "jsnum \<Rightarrow> jsnum \<Rightarrow> jsnum" where
  "jsMinus (Num a) (Num b) = Num (roundDouble (a - b))"
| "jsMinus _ _ = NaN"

text \<open>
  \<^verbatim>\<open>Math.pow(x, 2)\<close>, taken as the correctly rounded square: the language leaves the
  precision of \<^verbatim>\<open>Math.pow\<close> to the engine, and the engines return the square of an
  integer exactly whenever it is a double.
\<close>

fun mathPow2 :: "jsnum \<Rightarrow> jsnum" where
  "mathPow2 (Num a) = Num (roundDouble (a ^ 2))"
| "mathPow2 NaN = NaN"

text \<open>
  The division, for a divisor that is not zero; the only divisor of the client is
  \<^verbatim>\<open>Math.pow(60000, 2)\<close>.  For a zero divisor JavaScript yields \<^verbatim>\<open>NaN\<close> or an
  infinity, which is \<^verbatim>\<open>NaN\<close> here.
\<close>

fun jsDivide :: "jsnum \<Rightarrow> jsnum \<Rightarrow> jsnum" where
  "jsDivide (Num a) (Num b) = (if b = 0 then NaN else Num (roundDouble (a / b)))"
| "jsDivide _ _ = NaN"

text \<open>The relational operator \<^verbatim>\<open><\<close> on numbers: false as soon as one side is \<^verbatim>\<open>NaN\<close>.\<close>

fun jsLess :: "jsnum \<Rightarrow> jsnum \<Rightarrow> bool" where
  "jsLess (Num a) (Num b) = (a < b)"
| "jsLess _ _ = False"

text \<open>
  An object literal with string keys: its own enumerable properties in insertion order.
  \<^verbatim>\<open>Object.keys(o)\<close> lists the names, \<^verbatim>\<open>o[name]\<close> reads a property and yields
  \<^verbatim>\<open>undefined\<close> for a name the object does not have.
\<close>

type_synonym jsobject = "(string \<times> jsval) list"

definition objectKeys :: "jsobject \<Rightarrow> string list" where
  "objectKeys obj = map fst obj"

definition getProp :: "jsobject \<Rightarrow> string \<Rightarrow> jsval" where
  "getProp obj name = (case map_of obj name of None \<Rightarrow> JUndefined | Some v \<Rightarrow> v)"

section \<open>Events\<close>

record session =
  sessionId :: string
  startTimestamp :: string
  stopTimestamp :: "string option"
  duration :: "jsnum option"

record event =
  eventType :: jsval
  timestamp :: string
  session :: session
  version :: string
  attributes :: jsobject
  metrics :: jsobject

text \<open>
  Reading a property of the event object by name.  The literal built by \<^verbatim>\<open>createEvent\<close>
  has exactly the six properties \<^verbatim>\<open>eventType\<close>, \<^verbatim>\<open>timestamp\<close>, \<^verbatim>\<open>session\<close>,
  \<^verbatim>\<open>version\<close>, \<^verbatim>\<open>attributes\<close> and \<^verbatim>\<open>metrics\<close>; any other name reads as
  \<^verbatim>\<open>undefined\<close>.
\<close>

definition eventProperty :: "event \<Rightarrow> string \<Rightarrow> jsval" where
  "eventProperty ev name =
     (if name = ''eventType'' then eventType ev
      else if name = ''timestamp'' then JString (timestamp ev)
      else if name = ''version'' then JString (version ev)
      else if name = ''session'' \<or> name = ''attributes'' \<or> name = ''metrics'' then JObject
      else JUndefined)"

text \<open>
  \<^verbatim>\<open>new Date(v).getTime()\<close>: the time value of an undefined argument is \<^verbatim>\<open>NaN\<close>; for
  every other argument the built-in conversion \<open>dateValue\<close> is a parameter.
\<close>

definition dateGetTime :: "(jsval \<Rightarrow> jsnum) \<Rightarrow> jsval \<Rightarrow> jsnum" where
  "dateGetTime dateValue v = (if v = JUndefined then NaN else dateValue v)"

section \<open>What the client writes to the outside\<close>

datatype level = LLog | LInfo | LWarn | LError

type_synonym callback = nat

record awsError =
  statusCode :: "int option"
  code :: "string option"

text \<open>
  Effects are collected in a trace.  \<open>Logged\<close> is a call of \<^verbatim>\<open>logger.info\<close>,
  \<^verbatim>\<open>logger.warn\<close> or \<^verbatim>\<open>logger.error\<close> with its message; the \<^verbatim>\<open>logger.log\<close> lines
  only print diagnostics and are not recorded.  \<open>LoggedResponse\<close> is
  \<^verbatim>\<open>logger.error(err, data)\<close>.  \<open>PutEvents\<close> is a call of the remote
  \<^verbatim>\<open>putEvents\<close> with the batch id its response handler is bound to, the events read from
  \<^verbatim>\<open>batches\<close> (absent when the id is unknown), the serialised client context and the
  callback of the handler.  \<open>Called\<close> is a call of a submit callback with
  \<^verbatim>\<open>(err, data, batchId)\<close>.
\<close>

datatype action =
    Logged level string
  | LoggedResponse awsError "string option"
  | PutEvents string "event list option" string callback
  | Called callback "awsError option" "string option" string
  | ClearTimeout "nat option"
  | SetTimeout nat nat

section \<open>Options and collaborators\<close>

text \<open>\<^verbatim>\<open>this.options\<close> after \<^verbatim>\<open>initOptions\<close>.\<close>

record options =
  globalAttributes :: jsobject
  globalMetrics :: jsobject
  autoSubmitEvents :: bool
  autoSubmitInterval :: nat
  batchSizeLimit :: nat
  submitCallback :: callback
  clientContext :: string

text \<open>
  The module \<^verbatim>\<open>MobileAnalyticsUtilities\<close> and the built-ins the client calls are not part
  of the source file, so they are parameters: \<open>mergeObjects a b\<close> is the content of the
  object \<open>a\<close> after \<^verbatim>\<open>Util.mergeObjects(a, b)\<close>, \<open>jsonStringify\<close> is
  \<^verbatim>\<open>JSON.stringify\<close>, \<open>getRequestBodySize\<close> is the serialised size of an event list,
  \<open>GUID n\<close> is the identifier returned by the \<open>n\<close>-th call of \<^verbatim>\<open>Util.GUID()\<close> and
  \<open>clock n\<close> is the result of the \<open>n\<close>-th call of \<^verbatim>\<open>Util.timestamp()\<close>.
\<close>

record util =
  mergeObjects :: "jsobject \<Rightarrow> jsobject \<Rightarrow> jsobject"
  jsonStringify :: "jsval \<Rightarrow> jsval"
  dateValue :: "jsval \<Rightarrow> jsnum"
  getRequestBodySize :: "event list \<Rightarrow> nat"
  GUID :: "nat \<Rightarrow> string"
  clock :: "nat \<Rightarrow> int"

section \<open>Event validation\<close>

text \<open>
  \<^verbatim>\<open>validationError\<close> is a function declaration nested in \<^verbatim>\<open>validateEvent\<close>; its body
  reads \<^verbatim>\<open>this.logger\<close>.  \<open>thisValue\<close> is the receiver of a call: \<open>ThisClient\<close> when
  the function is called on the client, \<open>ThisUndefined\<close> when it is called as a plain
  function, where reading a property of \<^verbatim>\<open>this\<close> throws a \<^verbatim>\<open>TypeError\<close>.
\<close>

datatype thisValue = ThisUndefined | ThisClient

definition validationError :: "thisValue \<Rightarrow> string \<Rightarrow> jsError + (action list \<times> event option)" where
  "validationError this errorMsg =
     (case this of
        ThisUndefined \<Rightarrow> Inl TypeError
      | ThisClient \<Rightarrow> Inr ([Logged LError errorMsg], None))"

definition customNameErrorFilter :: "string \<Rightarrow> bool" where
  "customNameErrorFilter name = (if length name = 0 then True else length name > 50)"

text \<open>
  \<^verbatim>\<open>event.attributes[name] && event.attributes[name].length > 200\<close>, as the filter
  reads it: only a non-empty string has a truthy value with a \<^verbatim>\<open>length\<close>.
\<close>

definition customAttrValueErrorFilter :: "event \<Rightarrow> string \<Rightarrow> bool" where
  "customAttrValueErrorFilter ev name =
     (case getProp (attributes ev) name of
        JString s \<Rightarrow> truthy (JString s) \<and> length s > 200
      | _ \<Rightarrow> False)"

definition invalidMetrics :: "event \<Rightarrow> string list" where
  "invalidMetrics ev =
     filter (\<lambda>metricName. typeof (getProp (metrics ev) metricName) \<noteq> ''number'')
       (objectKeys (metrics ev))"

text \<open>
  \<^verbatim>\<open>validateEvent\<close>: every \<^verbatim>\<open>return validationError(...)\<close> is a plain call, so the
  receiver is \<open>ThisUndefined\<close>.
\<close>

definition validateEvent :: "event \<Rightarrow> jsError + (action list \<times> event option)" where
  "validateEvent ev =
     (if version ev \<noteq> ''v2.0'' then
        validationError ThisUndefined ''Event must have version v2.0''
      else if typeof (eventType ev) \<noteq> ''string'' then
        validationError ThisUndefined ''Event Type must be a string''
      else if length (invalidMetrics ev) > 0 then
        validationError ThisUndefined
          (''Event Metrics must be numeric ('' @ hd (invalidMetrics ev) @ '')'')
      else if length (objectKeys (metrics ev)) + length (objectKeys (attributes ev)) > 40 then
        validationError ThisUndefined ''Event Metric and Attribute Count cannot exceed 40''
      else if length (filter customNameErrorFilter (objectKeys (attributes ev))) \<noteq> 0 then
        validationError ThisUndefined ''Event Attribute names must be 1-50 characters''
      else if length (filter customNameErrorFilter (objectKeys (metrics ev))) \<noteq> 0 then
        validationError ThisUndefined ''Event Metric names must be 1-50 characters''
      else if length (filter (customAttrValueErrorFilter ev) (objectKeys (attributes ev))) \<noteq> 0 then
        validationError ThisUndefined
          ''Event Attribute values cannot be longer than 200 characters''
      else Inr ([], Some ev))"

section \<open>Event creation\<close>

text \<open>
  \<^verbatim>\<open>createEvent(eventType, session, attributes, metrics)\<close>.  An omitted \<^verbatim>\<open>attributes\<close>
  or \<^verbatim>\<open>metrics\<close> argument is \<open>None\<close>; \<open>nowISO\<close> is \<^verbatim>\<open>new Date().toISOString()\<close>.
  The duration is computed from \<^verbatim>\<open>event.stopTimestamp\<close> and \<^verbatim>\<open>event.startTimestamp\<close>,
  which are properties of the event object itself, not of its session.
\<close>

definition stringifyAttributes :: "util \<Rightarrow> jsobject \<Rightarrow> jsobject" where
  "stringifyAttributes U attrs =
     map (\<lambda>(name, v). (name, if typeof v \<noteq> ''string'' then jsonStringify U v else v)) attrs"

definition createEvent ::
  "options \<Rightarrow> util \<Rightarrow> string \<Rightarrow> jsval \<Rightarrow> session \<Rightarrow> jsobject option \<Rightarrow> jsobject option
     \<Rightarrow> jsError + (action list \<times> event option)" where
  "createEvent opts U nowISO evType sess attrsArg metricsArg =
     (let attrs0 = (case attrsArg of None \<Rightarrow> [] | Some a \<Rightarrow> a);
          metrics0 = (case metricsArg of None \<Rightarrow> [] | Some m \<Rightarrow> m);
          attrs1 = mergeObjects U attrs0 (globalAttributes opts);
          metrics1 = mergeObjects U metrics0 (globalMetrics opts);
          attrs2 = stringifyAttributes U attrs1;
          ev = \<lparr> eventType = evType,
                 timestamp = nowISO,
                 session = \<lparr> sessionId = sessionId sess,
                              startTimestamp = startTimestamp sess,
                              stopTimestamp = None,
                              duration = None \<rparr>,
                 version = ''v2.0'',
                 attributes = attrs2,
                 metrics = metrics1 \<rparr>;
          ev' = (if (case stopTimestamp sess of None \<Rightarrow> False | Some t \<Rightarrow> truthy (JString t)) then
                   ev \<lparr> session := (session ev)
                          \<lparr> stopTimestamp := stopTimestamp sess,
                            duration := Some (jsMinus
                               (dateGetTime (dateValue U) (eventProperty ev ''stopTimestamp''))
                               (dateGetTime (dateValue U) (eventProperty ev ''startTimestamp''))) \<rparr> \<rparr>
                 else ev)
      in validateEvent ev')"

section \<open>The state of the client\<close>

text \<open>
  \<^verbatim>\<open>this.outputs\<close>, the three persisted slots of the storage collaborator, the trace
  of effects and the number of calls made so far to \<^verbatim>\<open>Util.GUID\<close>,
  \<^verbatim>\<open>Util.timestamp\<close> and \<^verbatim>\<open>setTimeout\<close>.  \<^verbatim>\<open>isThrottled\<close> is never initialised by
  the client; it is only read for its truth value, so the initial \<^verbatim>\<open>undefined\<close> is
  \<open>False\<close>.

  Modelled from the spec: the storage collaborator (\<^verbatim>\<open>./Storage\<close>) is not in the source;
  \<^verbatim>\<open>storage.set(key, value)\<close> replaces the content of the slot \<open>key\<close> by \<open>value\<close>.
\<close>

record state =
  events :: "event list"
  batches :: "string \<rightharpoonup> event list"
  batchIndex :: "string list"
  batchesInFlight :: "string \<rightharpoonup> int"
  isThrottled :: bool
  lastSubmitTimestamp :: "int option"
  timeoutReference :: "nat option"
  storedEvents :: "event list"
  storedBatches :: "string \<rightharpoonup> event list"
  storedBatchIndex :: "string list"
  trace :: "action list"
  guidCalls :: nat
  clockReads :: nat
  timersSet :: nat

definition logged :: "level \<Rightarrow> string \<Rightarrow> state \<Rightarrow> state" where
  "logged lv msg s = s\<lparr>trace := trace s @ [Logged lv msg]\<rparr>"

text \<open>One call of \<^verbatim>\<open>Util.timestamp()\<close>.\<close>

definition timestampNow :: "util \<Rightarrow> state \<Rightarrow> int \<times> state" where
  "timestampNow U s = (clock U (clockReads s), s\<lparr>clockReads := Suc (clockReads s)\<rparr>)"

section \<open>Batch generation\<close>

definition persistBatch :: "util \<Rightarrow> event list \<Rightarrow> state \<Rightarrow> bool \<times> state" where
  "persistBatch U eventBatch s =
     (if getRequestBodySize U eventBatch < 512000 then
        (let batchId = GUID U (guidCalls s);
             s1 = s\<lparr>guidCalls := Suc (guidCalls s)\<rparr>;
             s2 = s1\<lparr>batches := (batches s1)(batchId \<mapsto> eventBatch)\<rparr>;
             s3 = s2\<lparr>storedBatches := batches s2\<rparr>;
             s4 = s3\<lparr>batchIndex := batchIndex s3 @ [batchId]\<rparr>;
             s5 = s4\<lparr>storedBatchIndex := batchIndex s4\<rparr>
         in (True, s5))
      else (False, logged LError ''Events too large'' s))"

text \<open>
  The inner loop of \<^verbatim>\<open>generateBatches\<close>: starting from the length of the queue,
  \<^verbatim>\<open>lastIndex\<close> goes down by one while it is above 1 and the first \<^verbatim>\<open>lastIndex\<close>
  events are larger than \<^verbatim>\<open>batchSizeLimit\<close>.
\<close>

fun findBatchSize :: "options \<Rightarrow> util \<Rightarrow> event list \<Rightarrow> nat \<Rightarrow> nat" where
  "findBatchSize opts U evs lastIndex =
     (if lastIndex > 1 \<and> getRequestBodySize U (take lastIndex evs) > batchSizeLimit opts
      then findBatchSize opts U evs (lastIndex - 1)
      else lastIndex)"

declare findBatchSize.simps [simp del]

text \<open>
  The outer loop of \<^verbatim>\<open>generateBatches\<close> runs while the queue is not empty; the queue is
  only shortened when \<^verbatim>\<open>persistBatch\<close> returns true.  The loop need not end, so the
  function is partial: \<open>None\<close> is a call that never returns.
\<close>

partial_function (option) generateBatches :: "options \<Rightarrow> util \<Rightarrow> state \<Rightarrow> state option" where
  "generateBatches opts U s =
     (if length (events s) > 0 then
        (let lastIndex = findBatchSize opts U (events s) (length (events s)) in
         case persistBatch U (take lastIndex (events s)) s of
           (persisted, s1) \<Rightarrow>
             if persisted then
               generateBatches opts U
                 (let s2 = s1\<lparr>events := drop lastIndex (events s1)\<rparr>
                  in s2\<lparr>storedEvents := events s2\<rparr>)
             else generateBatches opts U s1)
      else Some s)"

section \<open>The batch store and the submission executor\<close>

definition clearBatchById :: "string \<Rightarrow> state \<Rightarrow> state" where
  "clearBatchById batchId s =
     (if batchId \<in> set (batchIndex s) then
        (let s1 = s\<lparr>batches := (batches s)(batchId := None)\<rparr>;
             s2 = s1\<lparr>batchIndex := remove1 batchId (batchIndex s1)\<rparr>;
             s3 = s2\<lparr>storedBatchIndex := batchIndex s2\<rparr>
         in s3\<lparr>storedBatches := batches s3\<rparr>)
      else s)"

text \<open>
  The \<^verbatim>\<open>options\<close> argument of the submit functions.  A client context is kept as its
  JSON serialisation.
\<close>

record submitOptions =
  optBatchId :: "string option"
  optClientContext :: "string option"
  optSubmitCallback :: "callback option"

definition submitBatchById :: "options \<Rightarrow> util \<Rightarrow> submitOptions \<Rightarrow> state \<Rightarrow> string option \<times> state" where
  "submitBatchById opts U so s =
     (case optBatchId so of
        None \<Rightarrow> (None, logged LError ''Invalid Options passed to submitBatchById'' s)
      | Some batchId \<Rightarrow>
          if batchId = [] then
            (None, logged LError ''Invalid Options passed to submitBatchById'' s)
          else
            (let cb = (case optSubmitCallback so of None \<Rightarrow> submitCallback opts | Some c \<Rightarrow> c);
                 ctx = (case optClientContext so of None \<Rightarrow> clientContext opts | Some c \<Rightarrow> c);
                 evs = batches s batchId;
                 (t, s1) = timestampNow U s;
                 s2 = s1\<lparr>batchesInFlight := (batchesInFlight s1)(batchId \<mapsto> t)\<rparr>
             in (Some batchId, s2\<lparr>trace := trace s2 @ [PutEvents batchId evs ctx cb]\<rparr>)))"

text \<open>
  \<^verbatim>\<open>!batchesInFlight[id]\<close>: the entry is a timestamp, which is falsy when it is absent
  or zero.
\<close>

definition notInFlight :: "state \<Rightarrow> string \<Rightarrow> bool" where
  "notInFlight s batchId = (case batchesInFlight s batchId of None \<Rightarrow> True | Some t \<Rightarrow> t = 0)"

text \<open>The body of the \<^verbatim>\<open>forEach\<close> of \<^verbatim>\<open>submitAllBatches\<close>, run over the batch index.\<close>

fun submitEach ::
  "options \<Rightarrow> util \<Rightarrow> submitOptions \<Rightarrow> string list \<Rightarrow> string option list \<times> state
     \<Rightarrow> string option list \<times> state" where
  "submitEach opts U so [] acc = acc"
| "submitEach opts U so (batchId # rest) (indices, s) =
     (let so1 = so\<lparr>optBatchId := Some batchId,
                   optClientContext :=
                     Some (case optClientContext so of None \<Rightarrow> clientContext opts | Some c \<Rightarrow> c)\<rparr>
      in if notInFlight s batchId then
           (let (r, s1) = submitBatchById opts U so1 s
            in submitEach opts U so1 rest (indices @ [r], s1))
         else submitEach opts U so1 rest (indices, s))"

definition submitAllBatches ::
  "options \<Rightarrow> util \<Rightarrow> submitOptions \<Rightarrow> state \<Rightarrow> string option list \<times> state" where
  "submitAllBatches opts U so s =
     (let so1 = so\<lparr>optSubmitCallback :=
                     Some (case optSubmitCallback so of None \<Rightarrow> submitCallback opts | Some c \<Rightarrow> c)\<rparr>
      in submitEach opts U so1 (batchIndex s) ([], s))"

definition NON_RETRYABLE_EXCEPTIONS :: "string list" where
  "NON_RETRYABLE_EXCEPTIONS = [''BadRequestException'', ''SerializationException'', ''ValidationException'']"

text \<open>
  The function returned by \<^verbatim>\<open>handlePutEventsResponse(batchId, callback)\<close>, applied to the
  response \<^verbatim>\<open>(err, data)\<close>.  \<^verbatim>\<open>clearBatch\<close> starts out true and is only set to false
  under status code 400 or no status code.
\<close>

definition handlePutEventsResponse ::
  "options \<Rightarrow> util \<Rightarrow> string \<Rightarrow> callback \<Rightarrow> awsError option \<Rightarrow> string option \<Rightarrow> state \<Rightarrow> state" where
  "handlePutEventsResponse opts U batchId cb err data s =
     (let wasThrottled = isThrottled s;
          (clearBatch, s1) =
            (case err of
               Some e \<Rightarrow>
                 (let s0 = s\<lparr>trace := trace s @ [LoggedResponse e data]\<rparr> in
                  if statusCode e = None \<or> statusCode e = Some 400 then
                    (let clr = (case code e of None \<Rightarrow> False
                                | Some c \<Rightarrow> c \<in> set NON_RETRYABLE_EXCEPTIONS);
                         sa = s0\<lparr>isThrottled := (code e = Some ''ThrottlingException'')\<rparr>
                     in (clr, if isThrottled sa
                              then logged LWarn ''Application is currently throttled'' sa
                              else sa))
                  else (True, s0))
             | None \<Rightarrow>
                 (True, (logged LInfo ''Events Submitted Successfully'' s)\<lparr>isThrottled := False\<rparr>));
          s2 = (if clearBatch then clearBatchById batchId s1 else s1);
          s3 = s2\<lparr>batchesInFlight := (batchesInFlight s2)(batchId := None)\<rparr>;
          s4 = s3\<lparr>trace := trace s3 @ [Called cb err data batchId]\<rparr>
      in if wasThrottled \<and> \<not> isThrottled s4 then
           snd (submitAllBatches opts U
                  \<lparr>optBatchId = None, optClientContext = None, optSubmitCallback = Some cb\<rparr>
                  (logged LWarn ''Was throttled flushing remaining batches'' s4))
         else s4)"

section \<open>The submission scheduler\<close>

text \<open>
  \<^verbatim>\<open>throttlingSuppressionFunction(timestamp)\<close>: an absent or zero argument is replaced by
  a reading of the clock; \<^verbatim>\<open>lastSubmitTimestamp\<close> is \<^verbatim>\<open>NaN\<close> as a number when it was
  never set.  The subtraction, the two calls of \<^verbatim>\<open>Math.pow\<close> and the division are
  operations on doubles.
\<close>

definition throttlingSuppressionFunction :: "util \<Rightarrow> int option \<Rightarrow> state \<Rightarrow> jsnum \<times> state" where
  "throttlingSuppressionFunction U tsArg s =
     (let (ts, s1) = (case tsArg of
                        None \<Rightarrow> timestampNow U s
                      | Some t \<Rightarrow> if t = 0 then timestampNow U s else (t, s));
          lastSubmit = (case lastSubmitTimestamp s1 of
                          None \<Rightarrow> NaN
                        | Some l \<Rightarrow> Num (real_of_int l))
      in (jsDivide (mathPow2 (jsMinus (Num (real_of_int ts)) lastSubmit)) (mathPow2 (Num 60000)),
          s1))"

text \<open>
  \<^verbatim>\<open>this.outputs.batches.length === 0\<close>: \<^verbatim>\<open>batches\<close> is a plain object keyed by batch
  id, so \<^verbatim>\<open>.length\<close> reads the property named \<^verbatim>\<open>length\<close>.  That is \<^verbatim>\<open>undefined\<close>, or
  an event array if a batch had that id; neither is strictly equal to the number 0.
\<close>

definition batchesLengthIsZero :: "(string \<rightharpoonup> event list) \<Rightarrow> bool" where
  "batchesLengthIsZero b = (case b ''length'' of None \<Rightarrow> False | Some evs \<Rightarrow> False)"

text \<open>
  The chain that computes \<^verbatim>\<open>warnMessage\<close> in \<^verbatim>\<open>submitEvents\<close>; \<open>rnd\<close> is the value of
  \<^verbatim>\<open>Math.random()\<close>, drawn only when the client is throttled.
\<close>

definition warnMessage :: "util \<Rightarrow> real \<Rightarrow> state \<Rightarrow> string option \<times> state" where
  "warnMessage U rnd s =
     (let (suppressed, s1) =
            (if isThrottled s then
               (let (v, sa) = throttlingSuppressionFunction U None s in (jsLess v (Num rnd), sa))
             else (False, s))
      in if suppressed then (Some ''Prevented submission while throttled'', s1)
         else if dom (batchesInFlight s1) \<noteq> {} then
           (Some ''Prevented submission while batches are in flight'', s1)
         else if batchesLengthIsZero (batches s1) \<and> length (events s1) = 0 then
           (Some ''No batches or events to be submitted'', s1)
         else (case lastSubmitTimestamp s1 of
                 None \<Rightarrow> (None, s1)
               | Some l \<Rightarrow>
                   if l = 0 then (None, s1)
                   else (let (t, s2) = timestampNow U s1
                         in if t - l < 1000
                            then (Some ''Prevented multiple submissions in under a second'', s2)
                            else (None, s2))))"

definition submitEvents ::
  "options \<Rightarrow> util \<Rightarrow> real \<Rightarrow> submitOptions option \<Rightarrow> state
     \<Rightarrow> (string option list \<times> state) option" where
  "submitEvents opts U rnd optionsArg s =
     (let so0 = (case optionsArg of
                   None \<Rightarrow> \<lparr>optBatchId = None, optClientContext = None, optSubmitCallback = None\<rparr>
                 | Some so \<Rightarrow> so);
          so = so0\<lparr>optSubmitCallback :=
                     Some (case optSubmitCallback so0 of None \<Rightarrow> submitCallback opts | Some c \<Rightarrow> c)\<rparr>;
          s1 = (if autoSubmitEvents opts then
                  s\<lparr>trace := trace s @ [ClearTimeout (timeoutReference s),
                                         SetTimeout (timersSet s) (autoSubmitInterval opts)],
                    timeoutReference := Some (timersSet s),
                    timersSet := Suc (timersSet s)\<rparr>
                else s)
      in case warnMessage U rnd s1 of
           (Some msg, s2) \<Rightarrow> Some ([], logged LWarn msg s2)
         | (None, s2) \<Rightarrow>
             (case generateBatches opts U s2 of
                None \<Rightarrow> None
              | Some s3 \<Rightarrow>
                  (let (t, s4) = timestampNow U s3;
                       s5 = s4\<lparr>lastSubmitTimestamp := Some t\<rparr>
                   in if isThrottled s5 then
                        (let s6 = logged LWarn ''Is throttled submitting first batch'' s5;
                             so1 = so\<lparr>optBatchId :=
                                        (case batchIndex s6 of [] \<Rightarrow> None | b # _ \<Rightarrow> Some b)\<rparr>;
                             (r, s7) = submitBatchById opts U so1 s6
                         in Some ([r], s7))
                      else Some (submitAllBatches opts U so s5))))"

section \<open>Auxiliary notions for the properties\<close>

text \<open>
  The schema of section 4.1 of the specification, check by check: the version, the type
  of \<^verbatim>\<open>eventType\<close>, numeric metric values, at most 40 attributes and metrics, names of
  1 to 50 characters and attribute values of at most 200 characters.
\<close>

definition schemaChecksHold :: "event \<Rightarrow> bool" where
  "schemaChecksHold ev =
     (version ev = ''v2.0'' \<and>
      typeof (eventType ev) = ''string'' \<and>
      list_all (\<lambda>name. typeof (getProp (metrics ev) name) = ''number'') (objectKeys (metrics ev)) \<and>
      length (objectKeys (attributes ev)) + length (objectKeys (metrics ev)) \<le> 40 \<and>
      list_all (\<lambda>name. 1 \<le> length name \<and> length name \<le> 50) (objectKeys (attributes ev)) \<and>
      list_all (\<lambda>name. 1 \<le> length name \<and> length name \<le> 50) (objectKeys (metrics ev)) \<and>
      list_all (\<lambda>name. case getProp (attributes ev) name of
                           JString v \<Rightarrow> length v \<le> 200
                         | _ \<Rightarrow> True) (objectKeys (attributes ev)))"

text \<open>
  The batch store is consistent when no id occurs twice in \<^verbatim>\<open>batchIndex\<close> and the ids
  of \<^verbatim>\<open>batchIndex\<close> are exactly the keys of \<^verbatim>\<open>batches\<close>.
\<close>

definition storeInvariant :: "state \<Rightarrow> bool" where
  "storeInvariant s = (distinct (batchIndex s) \<and> set (batchIndex s) = dom (batches s))"

text \<open>
  The queue is not empty and the batch chosen by the inner loop is refused by
  \<^verbatim>\<open>persistBatch\<close>.
\<close>

definition oversized :: "options \<Rightarrow> util \<Rightarrow> state \<Rightarrow> bool" where
  "oversized opts U s =
     (events s \<noteq> [] \<and>
      \<not> getRequestBodySize U
          (take (findBatchSize opts U (events s) (length (events s))) (events s)) < 512000)"

text \<open>The events of the batches with the given ids, one batch after the other.\<close>

definition batchEvents :: "state \<Rightarrow> string list \<Rightarrow> event list" where
  "batchEvents s ids =
     concat (map (\<lambda>i. case batches s i of None \<Rightarrow> [] | Some evs \<Rightarrow> evs) ids)"

text \<open>
  What a finished run of \<^verbatim>\<open>generateBatches\<close> from \<open>s\<close> to \<open>s'\<close> has done: the
  queue is empty, the new ids are the identifiers generated in between, in that order at
  the end of the index, every other entry of \<^verbatim>\<open>batches\<close> is untouched, and the new
  batches hold the old queue.
\<close>

definition drained :: "util \<Rightarrow> state \<Rightarrow> state \<Rightarrow> bool" where
  "drained U s s' =
     (events s' = [] \<and> guidCalls s \<le> guidCalls s' \<and>
      batchIndex s' = batchIndex s @ map (GUID U) [guidCalls s..<guidCalls s'] \<and>
      (\<forall>i. i \<notin> GUID U ` {guidCalls s..<guidCalls s'} \<longrightarrow> batches s' i = batches s i) \<and>
      batchEvents s' (map (GUID U) [guidCalls s..<guidCalls s']) = events s)"

text \<open>
  The response handler up to and including the call of the callback, that is, before it
  decides whether to flush.
\<close>

definition afterResponse ::
  "string \<Rightarrow> callback \<Rightarrow> awsError option \<Rightarrow> string option \<Rightarrow> state \<Rightarrow> state" where
  "afterResponse batchId cb err data s =
     (let (clearBatch, s1) =
            (case err of
               Some e \<Rightarrow>
                 (let s0 = s\<lparr>trace := trace s @ [LoggedResponse e data]\<rparr> in
                  if statusCode e = None \<or> statusCode e = Some 400 then
                    (let clr = (case code e of None \<Rightarrow> False
                                | Some c \<Rightarrow> c \<in> set NON_RETRYABLE_EXCEPTIONS);
                         sa = s0\<lparr>isThrottled := (code e = Some ''ThrottlingException'')\<rparr>
                     in (clr, if isThrottled sa
                              then logged LWarn ''Application is currently throttled'' sa
                              else sa))
                  else (True, s0))
             | None \<Rightarrow>
                 (True, (logged LInfo ''Events Submitted Successfully'' s)\<lparr>isThrottled := False\<rparr>));
          s2 = (if clearBatch then clearBatchById batchId s1 else s1);
          s3 = s2\<lparr>batchesInFlight := (batchesInFlight s2)(batchId := None)\<rparr>
      in s3\<lparr>trace := trace s3 @ [Called cb err data batchId]\<rparr>)"

text \<open>The value of \<^verbatim>\<open>clearBatch\<close> and of \<^verbatim>\<open>isThrottled\<close> after a response.\<close>

definition clearBatchFlag :: "awsError option \<Rightarrow> bool" where
  "clearBatchFlag err =
     (case err of
        None \<Rightarrow> True
      | Some e \<Rightarrow>
          if statusCode e = None \<or> statusCode e = Some 400
          then (case code e of None \<Rightarrow> False | Some c \<Rightarrow> c \<in> set NON_RETRYABLE_EXCEPTIONS)
          else True)"

definition throttledAfter :: "awsError option \<Rightarrow> state \<Rightarrow> bool" where
  "throttledAfter err s =
     (case err of
        None \<Rightarrow> False
      | Some e \<Rightarrow>
          if statusCode e = None \<or> statusCode e = Some 400
          then code e = Some ''ThrottlingException''
          else isThrottled s)"

text \<open>The lines the handler logs before it calls the callback.\<close>

definition responseLog :: "awsError option \<Rightarrow> string option \<Rightarrow> action list" where
  "responseLog err data =
     (case err of
        None \<Rightarrow> [Logged LInfo ''Events Submitted Successfully'']
      | Some e \<Rightarrow> LoggedResponse e data #
          (if (statusCode e = None \<or> statusCode e = Some 400) \<and>
              code e = Some ''ThrottlingException''
           then [Logged LWarn ''Application is currently throttled'']
           else []))"

text \<open>
  The probability of section 4.4 of the specification, as a function of the time elapsed
  since \<^verbatim>\<open>lastSubmitTimestamp\<close>: the quadratic ramp over the real numbers, capped at 1.
\<close>

definition allowProbability :: "int \<Rightarrow> real" where
  "allowProbability elapsed = min 1 ((real_of_int elapsed) ^ 2 / 60000 ^ 2)"

text \<open>A real number is a double when it is a multiple of the \<open>ulp\<close> of its binade.\<close>

definition isDouble :: "real \<Rightarrow> bool" where
  "isDouble x = (x = 0 \<or> \<bar>x\<bar> / ulp x \<in> \<int>)"

text \<open>
  The number that \<^verbatim>\<open>throttlingSuppressionFunction\<close> computes for an elapsed time: three
  roundings of the numerator, one of the constant and one of the quotient.
\<close>

definition suppressionValue :: "int \<Rightarrow> real" where
  "suppressionValue elapsed =
     roundDouble (roundDouble ((roundDouble (real_of_int elapsed)) ^ 2) / roundDouble (60000 ^ 2))"

text \<open>The first step of \<^verbatim>\<open>submitEvents\<close>: with auto-submit on, the timer is re-armed.\<close>

definition armTimer :: "options \<Rightarrow> state \<Rightarrow> state" where
  "armTimer opts s =
     (if autoSubmitEvents opts then
        s\<lparr>trace := trace s @ [ClearTimeout (timeoutReference s),
                               SetTimeout (timersSet s) (autoSubmitInterval opts)],
          timeoutReference := Some (timersSet s),
          timersSet := Suc (timersSet s)\<rparr>
      else s)"

subsection \<open>Sample inputs\<close>

text \<open>
  The options are the defaults of \<^verbatim>\<open>initOptions\<close>.  The sample collaborators merge
  the keys of the second object that the first lacks, know two dates, give an event 100
  bytes (200000 for the type \<^verbatim>\<open>big\<close>, 600000 for the type \<^verbatim>\<open>huge\<close>) plus 2 bytes for
  the list, generate the identifiers \<^verbatim>\<open>g\<close>, \<^verbatim>\<open>gg\<close>, ... and start the clock at 5000.
\<close>

abbreviation defaultOptions :: options where
  "defaultOptions \<equiv>
     \<lparr> globalAttributes = [], globalMetrics = [], autoSubmitEvents = True,
       autoSubmitInterval = 10000, batchSizeLimit = 256000, submitCallback = 0,
       clientContext = ''{}'' \<rparr>"

abbreviation sampleUtil :: util where
  "sampleUtil \<equiv>
     \<lparr> mergeObjects = (\<lambda>a b. a @ filter (\<lambda>kv. fst kv \<notin> set (map fst a)) b),
       jsonStringify = (\<lambda>v. JString ''null''),
       dateValue = (\<lambda>v. if v = JString ''1970-01-01T00:00:01.000Z'' then Num 1000
                          else if v = JString ''1970-01-01T00:00:03.000Z'' then Num 3000
                          else NaN),
       getRequestBodySize =
         (\<lambda>evs. 2 + sum_list (map (\<lambda>e. if eventType e = JString ''huge'' then 600000
                                         else if eventType e = JString ''big'' then 200000
                                         else 100) evs)),
       GUID = (\<lambda>n. replicate (Suc n) (CHR ''g'')),
       clock = (\<lambda>n. 5000 + int n) \<rparr>"

abbreviation sampleSession :: session where
  "sampleSession \<equiv>
     \<lparr> sessionId = ''s1'', startTimestamp = ''1970-01-01T00:00:01.000Z'',
       stopTimestamp = None, duration = None \<rparr>"

abbreviation sampleEvent :: "string \<Rightarrow> event" where
  "sampleEvent name \<equiv>
     \<lparr> eventType = JString name, timestamp = ''1970-01-01T00:00:04.000Z'',
       session = sampleSession, version = ''v2.0'', attributes = [], metrics = [] \<rparr>"

abbreviation emptyState :: state where
  "emptyState \<equiv>
     \<lparr> events = [], batches = Map.empty, batchIndex = [], batchesInFlight = Map.empty,
       isThrottled = False, lastSubmitTimestamp = None, timeoutReference = None,
       storedEvents = [], storedBatches = Map.empty, storedBatchIndex = [],
       trace = [], guidCalls = 0, clockReads = 0, timersSet = 0 \<rparr>"

text \<open>One batch \<^verbatim>\<open>g\<close>, dispatched at time 5000 and still in flight.\<close>

abbreviation oneBatchState :: state where
  "oneBatchState \<equiv>
     emptyState \<lparr> batches := [''g'' \<mapsto> [sampleEvent ''a'']], batchIndex := [''g''],
                  batchesInFlight := [''g'' \<mapsto> 5000], lastSubmitTimestamp := Some 5000,
                  storedBatches := [''g'' \<mapsto> [sampleEvent ''a'']],
                  storedBatchIndex := [''g''], guidCalls := 1, clockReads := 2 \<rparr>"

text \<open>
  Two batches \<^verbatim>\<open>g\<close> and \<^verbatim>\<open>gg\<close> while the client is throttled; only \<^verbatim>\<open>g\<close> was
  dispatched.
\<close>

abbreviation throttledState :: state where
  "throttledState \<equiv>
     emptyState \<lparr> batches := [''g'' \<mapsto> [sampleEvent ''a''], ''gg'' \<mapsto> [sampleEvent ''b'']],
                  batchIndex := [''g'', ''gg''],
                  batchesInFlight := [''g'' \<mapsto> 5000], isThrottled := True,
                  lastSubmitTimestamp := Some 5000,
                  storedBatches := [''g'' \<mapsto> [sampleEvent ''a''], ''gg'' \<mapsto> [sampleEvent ''b'']],
                  storedBatchIndex := [''g'', ''gg''], guidCalls := 2, clockReads := 2 \<rparr>"


section \<open>Rounding to doubles\<close>

lemma roundEven_floor: "\<lfloor>y\<rfloor> \<le> roundEven y"
  by (simp add: roundEven_def Let_def)

lemma roundEven_of_int: "roundEven (of_int k) = k"
  by (simp add: roundEven_def Let_def)

lemma roundEven_ge: "of_int k \<le> y \<Longrightarrow> k \<le> roundEven y"
  using roundEven_floor [of y] le_floor_iff [of k y] by linarith

lemma roundEven_error: "\<bar>of_int (roundEven y) - y\<bar> \<le> 1 / 2"
  by (auto simp: roundEven_def Let_def)

lemma ulp_pos: "0 < ulp x"
  by (simp add: ulp_def)

lemma binade:
  assumes "0 < x"
  shows "2 powr of_int \<lfloor>log 2 x\<rfloor> \<le> x \<and> x < 2 powr of_int (\<lfloor>log 2 x\<rfloor> + 1)"
  using floor_log_eq_powr_iff [of x 2 "\<lfloor>log 2 x\<rfloor>"] assms by simp

lemma binade_unique:
  assumes "0 < x" and "2 powr of_int e \<le> x" and "x < 2 powr of_int (e + 1)"
  shows "\<lfloor>log 2 x\<rfloor> = e"
  using floor_log_eq_powr_iff [of x 2 e] assms by simp

lemma ulp_binade:
  assumes "0 < x" and "2 powr of_int e \<le> x" and "x < 2 powr of_int (e + 1)"
  shows "ulp x = 2 powr of_int (e - 52)"
  using binade_unique [OF assms] assms(1) by (simp add: ulp_def)

lemma roundDouble_binade:
  assumes "0 < x" and "2 powr of_int e \<le> x" and "x < 2 powr of_int (e + 1)"
  shows "roundDouble x = 2 powr of_int (e - 52) * of_int (roundEven (x / 2 powr of_int (e - 52)))"
  using ulp_binade [OF assms] assms(1) by (simp add: roundDouble_def)

lemma roundDouble_minus: "roundDouble (- x) = - roundDouble x"
  by (simp add: roundDouble_def ulp_def sgn_minus)

lemma ulp_scale: "0 < x \<Longrightarrow> 2 powr 52 * ulp x \<le> x"
proof -
  assume x: "0 < x"
  have "2 powr 52 * ulp x = 2 powr of_int \<lfloor>log 2 x\<rfloor>"
    using x by (simp add: ulp_def powr_diff)
  with binade [OF x] show ?thesis by simp
qed

text \<open>The rounded value is not below the lower end of the binade.\<close>

lemma roundDouble_ge_binade:
  assumes "0 < x"
  shows "2 powr of_int \<lfloor>log 2 x\<rfloor> \<le> roundDouble x"
proof -
  let ?u = "ulp x"
  have u: "0 < ?u" by (rule ulp_pos)
  have eq: "2 powr 52 * ?u = 2 powr of_int \<lfloor>log 2 x\<rfloor>"
    using assms by (simp add: ulp_def powr_diff)
  have "of_int (2 ^ 52) \<le> x / ?u"
    using ulp_scale [OF assms] u by (simp add: pos_le_divide_eq)
  then have "(2 ^ 52 :: int) \<le> roundEven (x / ?u)" by (rule roundEven_ge)
  then have "(2 ^ 52 :: real) \<le> of_int (roundEven (x / ?u))"
    by (metis of_int_le_iff of_int_numeral of_int_power)
  then have "2 ^ 52 * ?u \<le> ?u * of_int (roundEven (x / ?u))"
    using u by (simp add: mult.commute)
  with eq assms show ?thesis by (simp add: roundDouble_def)
qed

lemma roundDouble_lower:
  assumes "isDouble c" and "0 < c" and "c \<le> x"
  shows "c \<le> roundDouble x"
proof -
  from assms have x: "0 < x" by linarith
  let ?e = "\<lfloor>log 2 x\<rfloor>" and ?ec = "\<lfloor>log 2 c\<rfloor>"
  have ec_le: "?ec \<le> ?e"
    using assms(2,3) by (intro floor_mono) (simp add: log_le_cancel_iff)
  show ?thesis
  proof (cases "?ec = ?e")
    case True
    then have u: "ulp c = ulp x" using assms(2) x by (simp add: ulp_def)
    from assms(1,2) obtain k :: int where k: "c / ulp c = of_int k"
      by (auto simp: isDouble_def Ints_def)
    then have c: "c = ulp x * of_int k" using ulp_pos [of c] u by (simp add: field_simps)
    have "of_int k \<le> x / ulp x"
      using assms(3) ulp_pos [of x] by (simp add: c pos_le_divide_eq mult.commute)
    then have "k \<le> roundEven (x / ulp x)" by (rule roundEven_ge)
    then have "ulp x * of_int k \<le> ulp x * of_int (roundEven (x / ulp x))"
      using ulp_pos [of x] by simp
    with x c show ?thesis by (simp add: roundDouble_def)
  next
    case False
    with ec_le have "?ec + 1 \<le> ?e" by simp
    then have "(2::real) powr of_int (?ec + 1) \<le> 2 powr of_int ?e" by simp
    moreover have "c < 2 powr of_int (?ec + 1)" using binade [OF assms(2)] by simp
    ultimately show ?thesis using roundDouble_ge_binade [OF x] by linarith
  qed
qed

lemma roundDouble_exact:
  assumes "isDouble c"
  shows "roundDouble c = c"
proof (cases "c = 0")
  case True
  then show ?thesis by (simp add: roundDouble_def)
next
  case False
  with assms obtain k :: int where k: "\<bar>c\<bar> / ulp c = of_int k"
    by (auto simp: isDouble_def Ints_def)
  then have "\<bar>c\<bar> = ulp c * of_int k" using ulp_pos [of c] by (simp add: field_simps)
  then show ?thesis
    using False by (auto simp: roundDouble_def k roundEven_of_int sgn_if abs_if split: if_splits)
qed


lemma isDouble_binade:
  assumes "0 < x" and "2 powr of_int e \<le> x" and "x < 2 powr of_int (e + 1)"
    and "x / 2 powr of_int (e - 52) = of_int k"
  shows "isDouble x"
  using ulp_binade [OF assms(1-3)] assms(1,4) by (simp add: isDouble_def)

lemma isDouble_int:
  assumes "0 < n" and "n < 2 ^ 53"
  shows "isDouble (of_int n)"
proof -
  let ?x = "real_of_int n" and ?e = "\<lfloor>log 2 (real_of_int n)\<rfloor>"
  have x: "0 < ?x" using assms(1) by simp
  have "?x < 9007199254740992" using assms(2) by simp
  then have "log 2 ?x < 53" using x by (simp add: log_less_iff)
  then have "?e < 53" by (simp add: floor_less_iff)
  then have e: "?e \<le> 52" by simp
  then have "(2::real) powr of_int (?e - 52) = inverse (2 ^ nat (52 - ?e))"
    using powr_real_of_int [of 2 "?e - 52"] by (cases "?e = 52") auto
  then have "?x / ulp ?x = of_int (n * 2 ^ nat (52 - ?e))"
    using x by (simp add: ulp_def divide_inverse)
  then have "?x / ulp ?x \<in> \<int>" by (metis Ints_of_int)
  then show ?thesis using x by (simp add: isDouble_def)
qed

lemma roundDouble_int:
  assumes "0 \<le> n" and "n < 2 ^ 53"
  shows "roundDouble (of_int n) = of_int n"
proof (cases "n = 0")
  case True
  then show ?thesis by (simp add: roundDouble_def)
next
  case False
  with assms have "isDouble (of_int n)" by (intro isDouble_int) simp_all
  then show ?thesis by (rule roundDouble_exact)
qed

lemma roundDouble_ge_int:
  assumes "0 < n" and "n < 2 ^ 53" and "of_int n \<le> x"
  shows "of_int n \<le> roundDouble x"
  using assms by (intro roundDouble_lower isDouble_int) simp_all

lemma roundDouble_error:
  "\<bar>roundDouble x - x\<bar> \<le> \<bar>x\<bar> / 2 ^ 53"
proof -
  have pos: "\<bar>roundDouble x - x\<bar> \<le> x / 2 ^ 53" if x: "0 < x" for x
  proof -
    let ?u = "ulp x" and ?y = "x / ulp x"
    have u: "0 < ?u" by (rule ulp_pos)
    have "roundDouble x - x = ?u * (of_int (roundEven ?y) - ?y)"
      using x u by (simp add: roundDouble_def algebra_simps)
    then have "\<bar>roundDouble x - x\<bar> = ?u * \<bar>of_int (roundEven ?y) - ?y\<bar>"
      using u by (simp add: abs_mult)
    also have "\<dots> \<le> ?u * (1 / 2)"
      using roundEven_error [of ?y] u by (intro mult_left_mono) simp_all
    also have "\<dots> \<le> x / 2 ^ 53"
      using ulp_scale [OF x] by simp
    finally show ?thesis .
  qed
  show ?thesis
  proof (cases "0 < x")
    case True
    with pos [of x] show ?thesis by simp
  next
    case False
    show ?thesis
    proof (cases "x = 0")
      case True
      then show ?thesis by (simp add: roundDouble_def)
    next
      case False
      with \<open>\<not> 0 < x\<close> have "0 < - x" by simp
      from pos [OF this] show ?thesis using \<open>0 < - x\<close> by (simp add: roundDouble_minus)
    qed
  qed
qed

lemma denominator: "roundDouble 3600000000 = 3600000000"
  using roundDouble_int [of 3600000000] by simp

lemma suppressionValue_small:
  assumes "\<bar>elapsed\<bar> < 60000"
  shows "suppressionValue elapsed = roundDouble (allowProbability elapsed)"
proof -
  have d: "roundDouble (real_of_int elapsed) = real_of_int elapsed"
  proof (cases "0 \<le> elapsed")
    case True
    with assms show ?thesis by (intro roundDouble_int) simp_all
  next
    case False
    with assms have "roundDouble (real_of_int (- elapsed)) = real_of_int (- elapsed)"
      by (intro roundDouble_int) simp_all
    then show ?thesis by (simp add: roundDouble_minus)
  qed
  have "elapsed ^ 2 < 60000 ^ 2"
    using assms by (metis abs_ge_zero power2_abs power_strict_mono zero_less_numeral pos2)
  then have sq: "elapsed ^ 2 < 2 ^ 53" by simp
  have "roundDouble (real_of_int (elapsed ^ 2)) = real_of_int (elapsed ^ 2)"
    using sq by (intro roundDouble_int) simp_all
  then have s: "roundDouble ((real_of_int elapsed) ^ 2) = (real_of_int elapsed) ^ 2" by simp
  have "(real_of_int elapsed) ^ 2 < 60000 ^ 2"
    using \<open>elapsed ^ 2 < 60000 ^ 2\<close>
    by (metis of_int_less_iff of_int_numeral of_int_power)
  then have "(real_of_int elapsed) ^ 2 / 60000 ^ 2 < 1" by simp
  then have ap: "allowProbability elapsed = (real_of_int elapsed) ^ 2 / 60000 ^ 2"
    by (simp add: allowProbability_def)
  have "suppressionValue elapsed = roundDouble ((real_of_int elapsed) ^ 2 / 60000 ^ 2)"
    by (simp add: suppressionValue_def d s denominator)
  then show ?thesis by (simp only: ap)
qed

lemma suppressionValue_large:
  assumes "60000 \<le> \<bar>elapsed\<bar>"
  shows "1 \<le> suppressionValue elapsed \<and> allowProbability elapsed = 1"
proof -
  let ?d = "roundDouble (real_of_int elapsed)"
  have "60000 \<le> \<bar>?d\<bar>"
  proof (cases "0 \<le> elapsed")
    case True
    with assms have "real_of_int 60000 \<le> real_of_int elapsed" by simp
    then have "real_of_int 60000 \<le> ?d" by (intro roundDouble_ge_int) simp_all
    then show ?thesis by simp
  next
    case False
    with assms have "real_of_int 60000 \<le> real_of_int (- elapsed)" by simp
    then have "real_of_int 60000 \<le> roundDouble (real_of_int (- elapsed))"
      by (intro roundDouble_ge_int) simp_all
    then show ?thesis by (simp add: roundDouble_minus)
  qed
  then have "(60000::real) ^ 2 \<le> \<bar>?d\<bar> ^ 2" by (intro power_mono) simp_all
  then have "real_of_int 3600000000 \<le> ?d ^ 2" by simp
  then have "real_of_int 3600000000 \<le> roundDouble (?d ^ 2)"
    by (intro roundDouble_ge_int) simp_all
  then have "real_of_int 1 \<le> roundDouble (?d ^ 2) / 3600000000" by simp
  then have "real_of_int 1 \<le> roundDouble (roundDouble (?d ^ 2) / 3600000000)"
    by (intro roundDouble_ge_int) simp_all
  then have 1: "1 \<le> suppressionValue elapsed" by (simp add: suppressionValue_def denominator)
  have "(60000::real) \<le> \<bar>real_of_int elapsed\<bar>" using assms by linarith
  then have "(60000::real) ^ 2 \<le> \<bar>real_of_int elapsed\<bar> ^ 2" by (intro power_mono) simp_all
  then have "1 \<le> (real_of_int elapsed) ^ 2 / 60000 ^ 2" by simp
  then have 2: "allowProbability elapsed = 1" by (simp add: allowProbability_def)
  from 1 2 show ?thesis ..
qed

lemma roundDouble_one: "roundDouble 1 = 1"
  using roundDouble_int [of 1] by simp

lemma suppression_gate:
  assumes "rnd < 1"
  shows "(rnd \<le> suppressionValue elapsed) = (rnd \<le> roundDouble (allowProbability elapsed))"
proof (cases "\<bar>elapsed\<bar> < 60000")
  case True
  then show ?thesis by (simp add: suppressionValue_small)
next
  case False
  then have "60000 \<le> \<bar>elapsed\<bar>" by simp
  from suppressionValue_large [OF this] assms show ?thesis by (simp add: roundDouble_one)
qed

lemma isDouble_bound: "isDouble (64881 / 65536)"
proof (rule isDouble_binade [where e = "- 1" and k = "64881 * 2 ^ 37"])
  show "(0::real) < 64881 / 65536" by simp
  show "2 powr real_of_int (- 1) \<le> (64881 / 65536 :: real)" by (simp add: powr_minus_divide)
  show "(64881 / 65536 :: real) < 2 powr real_of_int (- 1 + 1)" by simp
  show "(64881 / 65536 :: real) / 2 powr real_of_int (- 1 - 52) = real_of_int (64881 * 2 ^ 37)"
    by (simp add: powr_minus_divide)
qed

lemma allow_bound_59700:
  assumes "59700 \<le> elapsed"
  shows "99 / 100 \<le> roundDouble (allowProbability elapsed)"
proof -
  have "(59700::real) \<le> real_of_int elapsed" using assms by linarith
  then have "(59700::real) ^ 2 \<le> (real_of_int elapsed) ^ 2" by (intro power_mono) simp_all
  then have "64881 / 65536 \<le> (real_of_int elapsed) ^ 2 / 60000 ^ 2" by (simp add: field_simps)
  then have "64881 / 65536 \<le> allowProbability elapsed" by (simp add: allowProbability_def)
  then have "64881 / 65536 \<le> roundDouble (allowProbability elapsed)"
    by (intro roundDouble_lower isDouble_bound) simp_all
  then show ?thesis by simp
qed

lemma allow_bound_60000:
  assumes "60000 \<le> elapsed"
  shows "roundDouble (allowProbability elapsed) = 1"
  using suppressionValue_large [of elapsed] assms by (simp add: roundDouble_one)

text \<open>
  After 59700 ms the real ramp is 0.990025, which is not a double; the nearest double
  lies above it.
\<close>

lemma round_59700: "roundDouble (allowProbability 59700) = 8917352442174951 / 2 ^ 53"
proof -
  have ap: "allowProbability 59700 = 39601 / 40000" by (simp add: allowProbability_def)
  have "roundDouble (39601 / 40000) =
      2 powr of_int (- 1 - 52) * of_int (roundEven ((39601 / 40000) / 2 powr of_int (- 1 - 52)))"
    by (rule roundDouble_binade) (simp_all add: powr_minus_divide)
  also have "\<dots> = 8917352442174951 / 2 ^ 53"
    by (simp add: powr_minus_divide roundEven_def Let_def)
  finally show ?thesis by (simp add: ap)
qed


section \<open>Validation and creation of events\<close>

lemma validationError_plain_call: "validationError ThisUndefined msg = Inl TypeError"
  by (simp add: validationError_def)

lemma filter_length_zero: "(length (filter P xs) \<noteq> 0) = (\<not> list_all (\<lambda>x. \<not> P x) xs)"
  by (simp add: list_all_iff filter_empty_conv)

lemma invalidMetrics_none:
  "(length (invalidMetrics ev) > 0) =
     (\<not> list_all (\<lambda>name. typeof (getProp (metrics ev) name) = ''number'') (objectKeys (metrics ev)))"
  by (simp add: invalidMetrics_def list_all_iff filter_empty_conv)

lemma customNameErrorFilter_iff:
  "(\<not> customNameErrorFilter name) = (1 \<le> length name \<and> length name \<le> 50)"
  by (cases name) (auto simp: customNameErrorFilter_def)

lemma customAttrValueErrorFilter_iff:
  "(\<not> customAttrValueErrorFilter ev name) =
     (case getProp (attributes ev) name of JString v \<Rightarrow> length v \<le> 200 | _ \<Rightarrow> True)"
  by (auto simp: customAttrValueErrorFilter_def split: jsval.splits)

lemma validateEvent_accepts:
  assumes "schemaChecksHold ev"
  shows "validateEvent ev = Inr ([], Some ev)"
  using assms
  unfolding validateEvent_def schemaChecksHold_def filter_length_zero invalidMetrics_none
    customNameErrorFilter_iff customAttrValueErrorFilter_iff
  by (simp add: add.commute)

lemma validateEvent_raises:
  assumes "\<not> schemaChecksHold ev"
  shows "validateEvent ev = Inl TypeError"
  using assms
  unfolding validateEvent_def validationError_plain_call schemaChecksHold_def
    filter_length_zero invalidMetrics_none customNameErrorFilter_iff
    customAttrValueErrorFilter_iff
  by (auto simp: add.commute)

text \<open>
  The boundaries: 40 attributes pass, and so does an attribute value of 200 characters; a
  value of 201 characters fails, and the failure is the thrown error.
\<close>

lemma validateEvent_accepts_40:
  "validateEvent ((sampleEvent ''a'')\<lparr>attributes := map (\<lambda>n. (replicate (Suc n) (CHR ''k''), JString ''v'')) [0..<40]\<rparr>)
     = Inr ([], Some ((sampleEvent ''a'')\<lparr>attributes := map (\<lambda>n. (replicate (Suc n) (CHR ''k''), JString ''v'')) [0..<40]\<rparr>))"
  by (rule validateEvent_accepts)
     (auto simp: schemaChecksHold_def objectKeys_def getProp_def
        list_all_iff split: option.splits jsval.splits dest!: map_of_SomeD)

lemma validateEvent_accepts_200:
  "validateEvent ((sampleEvent ''a'')\<lparr>attributes := [(''k'', JString (replicate 200 (CHR ''x'')))]\<rparr>)
     = Inr ([], Some ((sampleEvent ''a'')\<lparr>attributes := [(''k'', JString (replicate 200 (CHR ''x'')))]\<rparr>))"
  by (rule validateEvent_accepts) (simp add: schemaChecksHold_def objectKeys_def getProp_def)

lemma validateEvent_raises_201:
  "validateEvent ((sampleEvent ''a'')\<lparr>attributes := [(''k'', JString (replicate 201 (CHR ''x'')))]\<rparr>)
     = Inl TypeError"
  by (rule validateEvent_raises) (simp add: schemaChecksHold_def objectKeys_def getProp_def)

text \<open>
  C5.  The order and the bounds of the checks of \<^verbatim>\<open>validateEvent\<close> are those of the
  specification, and an event that passes them is returned unchanged.  An event that fails
  one is not reported and rejected by a returned value, though: the call of
  \<^verbatim>\<open>validationError\<close> throws a \<^verbatim>\<open>TypeError\<close>, whichever check failed, and nothing is
  logged.
\<close>

theorem validateEvent_rejection_raises:
  "validateEvent ev = (if schemaChecksHold ev then Inr ([], Some ev) else Inl TypeError)"
proof (cases "schemaChecksHold ev")
  case True
  then have "validateEvent ev = Inr ([], Some ev)" by (rule validateEvent_accepts)
  with True show ?thesis by simp
next
  case False
  then have "validateEvent ev = Inl TypeError" by (rule validateEvent_raises)
  with False show ?thesis by simp
qed

text \<open>An event with 41 attributes: the check of the count fails and the call throws.\<close>

theorem validateEvent_rejection_raises_witness:
  "\<not> schemaChecksHold ((sampleEvent ''a'')\<lparr>attributes := map (\<lambda>n. (replicate (Suc n) (CHR ''k''), JString ''v'')) [0..<41]\<rparr>) \<and>
   validateEvent ((sampleEvent ''a'')\<lparr>attributes := map (\<lambda>n. (replicate (Suc n) (CHR ''k''), JString ''v'')) [0..<41]\<rparr>)
     = Inl TypeError"
  using validateEvent_rejection_raises
    [of "(sampleEvent ''a'')\<lparr>attributes := map (\<lambda>n. (replicate (Suc n) (CHR ''k''), JString ''v'')) [0..<41]\<rparr>"]
  by (simp add: schemaChecksHold_def objectKeys_def)

text \<open>
  C4.  When \<^verbatim>\<open>createEvent\<close> returns an event for a session with a non-empty
  \<^verbatim>\<open>stopTimestamp\<close>, the duration it has stored is \<^verbatim>\<open>NaN\<close>, not the difference of the
  two timestamps: both dates are built from properties that the event object does not
  have.
\<close>

theorem createEvent_duration_NaN:
  assumes "createEvent opts U nowISO evType sess attrsArg metricsArg = Inr (lg, Some ev)"
    and "stopTimestamp sess = Some t" and "t \<noteq> []"
  shows "duration (session ev) = Some NaN"
  using assms
  by (auto simp: createEvent_def Let_def validateEvent_def validationError_def
        eventProperty_def dateGetTime_def split: if_splits)

text \<open>
  A session from second 1 to second 3: the sample \<open>dateValue\<close> knows both dates, and the
  event comes back with the duration \<^verbatim>\<open>NaN\<close> instead of 2000.
\<close>

theorem createEvent_duration_NaN_witness:
  "createEvent defaultOptions sampleUtil ''1970-01-01T00:00:04.000Z'' (JString ''level_up'')
      (sampleSession\<lparr>stopTimestamp := Some ''1970-01-01T00:00:03.000Z''\<rparr>) None None
     = Inr ([], Some ((sampleEvent ''level_up'')
          \<lparr>session := sampleSession\<lparr>stopTimestamp := Some ''1970-01-01T00:00:03.000Z'',
                                      duration := Some NaN\<rparr>\<rparr>)) \<and>
   jsMinus (dateValue sampleUtil (JString ''1970-01-01T00:00:03.000Z''))
           (dateValue sampleUtil (JString ''1970-01-01T00:00:01.000Z'')) = Num 2000"
proof -
  have run: "createEvent defaultOptions sampleUtil ''1970-01-01T00:00:04.000Z''
      (JString ''level_up'') (sampleSession\<lparr>stopTimestamp := Some ''1970-01-01T00:00:03.000Z''\<rparr>)
      None None
     = Inr ([], Some ((sampleEvent ''level_up'')
          \<lparr>session := sampleSession\<lparr>stopTimestamp := Some ''1970-01-01T00:00:03.000Z'',
                                      duration := Some NaN\<rparr>\<rparr>))"
    by (simp add: createEvent_def Let_def validateEvent_def eventProperty_def dateGetTime_def
          stringifyAttributes_def invalidMetrics_def objectKeys_def)
  have diff: "roundDouble 2000 = 2000" using roundDouble_int [of 2000] by simp
  from createEvent_duration_NaN [OF run] run show ?thesis by (simp add: diff)
qed


section \<open>Batch generation\<close>

lemma findBatchSize_bounds:
  "1 \<le> k \<Longrightarrow> 1 \<le> findBatchSize opts U evs k \<and> findBatchSize opts U evs k \<le> k"
proof (induction opts U evs k rule: findBatchSize.induct)
  case (1 opts U evs lastIndex)
  show ?case
  proof (cases "lastIndex > 1 \<and> getRequestBodySize U (take lastIndex evs) > batchSizeLimit opts")
    case True
    then have "1 \<le> lastIndex - 1" by linarith
    with 1 True show ?thesis by (subst (1 2) findBatchSize.simps) auto
  next
    case False
    with 1 show ?thesis by (subst (1 2) findBatchSize.simps) auto
  qed
qed

lemma findBatchSize_fits:
  "1 \<le> k \<Longrightarrow> findBatchSize opts U evs k = 1 \<or>
     getRequestBodySize U (take (findBatchSize opts U evs k) evs) \<le> batchSizeLimit opts"
proof (induction opts U evs k rule: findBatchSize.induct)
  case (1 opts U evs lastIndex)
  show ?case
  proof (cases "lastIndex > 1 \<and> getRequestBodySize U (take lastIndex evs) > batchSizeLimit opts")
    case True
    then have "1 \<le> lastIndex - 1" by linarith
    with 1 True show ?thesis by (subst (1 2) findBatchSize.simps) auto
  next
    case False
    with 1 show ?thesis by (subst (1 2) findBatchSize.simps) auto
  qed
qed

lemma generateBatches_empty: "events s = [] \<Longrightarrow> generateBatches opts U s = Some s"
  by (subst generateBatches.simps) simp

lemma persistBatch_True:
  "persistBatch U evs s = (True, s1) \<Longrightarrow>
     s1 = s\<lparr>guidCalls := Suc (guidCalls s),
            batches := (batches s)(GUID U (guidCalls s) \<mapsto> evs),
            storedBatches := (batches s)(GUID U (guidCalls s) \<mapsto> evs),
            batchIndex := batchIndex s @ [GUID U (guidCalls s)],
            storedBatchIndex := batchIndex s @ [GUID U (guidCalls s)]\<rparr>"
  by (auto simp: persistBatch_def Let_def split: if_splits)

lemma persistBatch_False:
  "persistBatch U evs s = (False, s1) \<Longrightarrow> s1 = logged LError ''Events too large'' s"
  by (auto simp: persistBatch_def Let_def split: if_splits)

subsection \<open>A batch that is too large is never dropped\<close>

lemma oversized_persist:
  "oversized opts U s \<Longrightarrow>
   persistBatch U (take (findBatchSize opts U (events s) (length (events s))) (events s)) s
     = (False, logged LError ''Events too large'' s)"
  by (simp add: oversized_def persistBatch_def)

lemma oversized_logged: "oversized opts U (logged lv msg s) = oversized opts U s"
  by (simp add: oversized_def logged_def)

text \<open>
  A run that returns did not start in an oversized state: the failed iteration leaves the
  queue as it was, so the next iteration is oversized again.
\<close>

lemma generateBatches_not_oversized:
  assumes "generateBatches opts U s = Some s'"
  shows "\<not> oversized opts U s"
proof (rule generateBatches.raw_induct
    [where P = "\<lambda>opts U s y. \<not> oversized opts U s", OF _ assms])
  fix loop :: "options \<Rightarrow> util \<Rightarrow> state \<Rightarrow> state option" and opts U s s'
  assume IH: "\<And>opts U s y. loop opts U s = Some y \<Longrightarrow> \<not> oversized opts U s"
  assume step:
    "(if 0 < length (events s)
      then let lastIndex = findBatchSize opts U (events s) (length (events s))
           in case persistBatch U (take lastIndex (events s)) s of
              (persisted, s1) \<Rightarrow>
                if persisted
                then loop opts U
                      (let s2 = s1\<lparr>events := drop lastIndex (events s1)\<rparr>
                       in s2\<lparr>storedEvents := events s2\<rparr>)
                else loop opts U s1
      else Some s) = Some s'"
  show "\<not> oversized opts U s"
  proof
    assume ov: "oversized opts U s"
    then have ne: "0 < length (events s)" by (simp add: oversized_def)
    from step ne oversized_persist [OF ov]
    have "loop opts U (logged LError ''Events too large'' s) = Some s'"
      by (simp add: Let_def)
    from IH [OF this] ov show False by (simp add: oversized_logged)
  qed
qed

lemma generateBatches_diverges:
  "oversized opts U s \<Longrightarrow> generateBatches opts U s = None"
  using generateBatches_not_oversized [of opts U s] by (cases "generateBatches opts U s") auto

text \<open>
  C1.  With a queue of one event whose serialised size is 512000 bytes or more,
  \<^verbatim>\<open>generateBatches\<close> does not return: \<^verbatim>\<open>persistBatch\<close> logs the error and returns
  false, the event stays in the queue, and the outer loop starts over in the same state.
\<close>

theorem generateBatches_oversized_event_diverges:
  assumes "events s = [e]" and "512000 \<le> getRequestBodySize U [e]"
  shows "generateBatches opts U s = None"
proof -
  have "findBatchSize opts U [e] (Suc 0) = 1"
    by (subst findBatchSize.simps) simp
  with assms have "oversized opts U s" by (simp add: oversized_def)
  then show ?thesis by (rule generateBatches_diverges)
qed

theorem generateBatches_oversized_event_diverges_witness:
  "512000 \<le> getRequestBodySize sampleUtil [sampleEvent ''huge''] \<and>
   generateBatches defaultOptions sampleUtil (emptyState\<lparr>events := [sampleEvent ''huge'']\<rparr>) = None"
  using generateBatches_oversized_event_diverges
    [of "emptyState\<lparr>events := [sampleEvent ''huge'']\<rparr>" "sampleEvent ''huge''" sampleUtil
        defaultOptions]
  by simp

subsection \<open>A run that returns has drained the queue in order\<close>

lemma drained_refl: "events s = [] \<Longrightarrow> drained U s s"
  by (simp add: drained_def batchEvents_def)

lemma drained_logged: "drained U (logged lv msg s) s' \<Longrightarrow> drained U s s'"
  by (simp add: drained_def logged_def)

text \<open>One successful iteration in front of a drained rest.\<close>

lemma drained_step:
  assumes inj: "inj (GUID U)"
    and s2: "s2 = s\<lparr>guidCalls := Suc (guidCalls s),
            batches := (batches s)(GUID U (guidCalls s) \<mapsto> take k (events s)),
            storedBatches := sb, batchIndex := batchIndex s @ [GUID U (guidCalls s)],
            storedBatchIndex := si, events := drop k (events s), storedEvents := se\<rparr>"
    and d: "drained U s2 s'"
  shows "drained U s s'"
proof -
  let ?g = "GUID U" and ?c = "guidCalls s" and ?c' = "guidCalls s'"
  from d s2 have lt: "?c < ?c'" by (simp add: drained_def)
  then have upt: "[?c..<?c'] = ?c # [Suc ?c..<?c']" by (simp add: upt_conv_Cons)
  have notin: "?g ?c \<notin> ?g ` {Suc ?c..<?c'}"
  proof
    assume "?g ?c \<in> ?g ` {Suc ?c..<?c'}"
    then obtain x where x: "?g ?c = ?g x" "Suc ?c \<le> x" by auto
    from x(1) inj have "?c = x" by (simp add: inj_eq)
    with x(2) show False by simp
  qed
  from d s2 have fr: "\<And>i. i \<notin> ?g ` {Suc ?c..<?c'} \<Longrightarrow>
      batches s' i = ((batches s)(?g ?c \<mapsto> take k (events s))) i"
    by (simp add: drained_def)
  from fr [OF notin] have hd: "batches s' (?g ?c) = Some (take k (events s))" by simp
  from d s2 have tl: "batchEvents s' (map ?g [Suc ?c..<?c']) = drop k (events s)"
    by (simp add: drained_def)
  have 1: "batchEvents s' (map ?g [?c..<?c']) = events s"
    using hd tl by (simp add: upt batchEvents_def)
  have 2: "batchIndex s' = batchIndex s @ map ?g [?c..<?c']"
    using d s2 by (simp add: drained_def upt)
  have 3: "\<And>i. i \<notin> ?g ` {?c..<?c'} \<Longrightarrow> batches s' i = batches s i"
  proof -
    fix i assume a: "i \<notin> ?g ` {?c..<?c'}"
    then have "i \<notin> ?g ` {Suc ?c..<?c'}" by auto
    moreover from a lt have "i \<noteq> ?g ?c" by auto
    ultimately show "batches s' i = batches s i" using fr [of i] by simp
  qed
  from d have "events s' = []" by (simp add: drained_def)
  with 1 2 3 lt show ?thesis by (simp add: drained_def)
qed

lemma generateBatches_drained:
  assumes "generateBatches opts U s = Some s'"
  shows "inj (GUID U) \<longrightarrow> drained U s s'"
proof (rule generateBatches.raw_induct
    [where P = "\<lambda>opts U s y. inj (GUID U) \<longrightarrow> drained U s y", OF _ assms])
  fix loop :: "options \<Rightarrow> util \<Rightarrow> state \<Rightarrow> state option" and opts U s s'
  assume IH: "\<And>opts U s y. loop opts U s = Some y \<Longrightarrow> inj (GUID U) \<longrightarrow> drained U s y"
  assume step:
    "(if 0 < length (events s)
      then let lastIndex = findBatchSize opts U (events s) (length (events s))
           in case persistBatch U (take lastIndex (events s)) s of
              (persisted, s1) \<Rightarrow>
                if persisted
                then loop opts U
                      (let s2 = s1\<lparr>events := drop lastIndex (events s1)\<rparr>
                       in s2\<lparr>storedEvents := events s2\<rparr>)
                else loop opts U s1
      else Some s) = Some s'"
  show "inj (GUID U) \<longrightarrow> drained U s s'"
  proof
    assume inj: "inj (GUID U)"
    show "drained U s s'"
    proof (cases "events s = []")
      case True
      with step have "s' = s" by simp
      with True show ?thesis by (simp add: drained_refl)
    next
      case False
      define k where "k = findBatchSize opts U (events s) (length (events s))"
      obtain persisted s1 where pb: "persistBatch U (take k (events s)) s = (persisted, s1)"
        by (cases "persistBatch U (take k (events s)) s")
      show ?thesis
      proof (cases persisted)
        case True
        from pb True have "persistBatch U (take k (events s)) s = (True, s1)" by simp
        note s1 = persistBatch_True [OF this]
        define s2 where "s2 = (let s2 = s1\<lparr>events := drop k (events s1)\<rparr>
                       in s2\<lparr>storedEvents := events s2\<rparr>)"
        from step False pb True have "loop opts U s2 = Some s'"
          by (simp add: Let_def k_def [symmetric] s2_def)
        from IH [OF this] inj have d: "drained U s2 s'" by simp
        show ?thesis
          by (rule drained_step [OF inj _ d]) (simp add: s2_def s1 Let_def)
      next
        case False
        from pb False have "persistBatch U (take k (events s)) s = (False, s1)" by simp
        note s1 = persistBatch_False [OF this]
        from step \<open>events s \<noteq> []\<close> pb False have "loop opts U s1 = Some s'"
          by (simp add: Let_def k_def [symmetric])
        from IH [OF this] inj have "drained U s1 s'" by simp
        then show ?thesis unfolding s1 by (rule drained_logged)
      qed
    qed
  qed
qed

text \<open>
  The run returns when the soft limit is below the hard cap and every queued event, taken
  alone, is below the hard cap: each iteration then removes at least one event.
\<close>

lemma generateBatches_terminates:
  assumes "batchSizeLimit opts < 512000"
    and "\<forall>e\<in>set (events s). getRequestBodySize U [e] < 512000"
  shows "\<exists>s'. generateBatches opts U s = Some s'"
  using assms(2)
proof (induction "length (events s)" arbitrary: s rule: less_induct)
  case less
  show ?case
  proof (cases "events s = []")
    case True
    then show ?thesis by (subst generateBatches.simps) simp
  next
    case False
    define k where "k = findBatchSize opts U (events s) (length (events s))"
    from False have len: "1 \<le> length (events s)" by (cases "events s") simp_all
    from findBatchSize_bounds [OF len, of opts U "events s"]
    have k1: "1 \<le> k" and kn: "k \<le> length (events s)" by (simp_all add: k_def)
    have small: "getRequestBodySize U (take k (events s)) < 512000"
    proof (cases "k = 1")
      case True
      from False obtain e rest where ev: "events s = e # rest" by (cases "events s") auto
      with less.prems have "getRequestBodySize U [e] < 512000" by simp
      with True ev show ?thesis by simp
    next
      case False
      with findBatchSize_fits [OF len, of opts U "events s"]
      have "getRequestBodySize U (take k (events s)) \<le> batchSizeLimit opts"
        by (simp add: k_def)
      with assms(1) show ?thesis by linarith
    qed
    define s2 where "s2 = (snd (persistBatch U (take k (events s)) s))
        \<lparr>events := drop k (events s), storedEvents := drop k (events s)\<rparr>"
    have ev2: "events s2 = drop k (events s)" by (simp add: s2_def)
    have "length (events s2) < length (events s)" using k1 len by (simp add: ev2)
    moreover have "\<forall>e\<in>set (events s2). getRequestBodySize U [e] < 512000"
      using less.prems by (auto simp: ev2 dest: in_set_dropD)
    ultimately obtain s' where "generateBatches opts U s2 = Some s'"
      using less.hyps by blast
    moreover have "generateBatches opts U s = generateBatches opts U s2"
      using False small
      by (subst generateBatches.simps)
         (simp add: k_def [symmetric] persistBatch_def Let_def s2_def)
    ultimately show ?thesis by simp
  qed
qed

text \<open>
  C7.  Let the identifiers generated by \<^verbatim>\<open>Util.GUID\<close> be pairwise different.  When
  \<^verbatim>\<open>generateBatches\<close> returns, the queue is empty, the ids of the new batches stand at
  the end of \<^verbatim>\<open>batchIndex\<close> in the order of their creation, and the events of the new
  batches, read in that order, are the events of the old queue in their old order.  The
  run does return when \<^verbatim>\<open>batchSizeLimit\<close> is below 512000 and every queued event alone
  is smaller than 512000 bytes.
\<close>

theorem generateBatches_preserves_order:
  assumes "inj (GUID U)"
  shows "(batchSizeLimit opts < 512000 \<and>
            (\<forall>e\<in>set (events s). getRequestBodySize U [e] < 512000)
          \<longrightarrow> (\<exists>s'. generateBatches opts U s = Some s')) \<and>
         (\<forall>s'. generateBatches opts U s = Some s' \<longrightarrow>
            events s' = [] \<and>
            batchIndex s' = batchIndex s @ map (GUID U) [guidCalls s..<guidCalls s'] \<and>
            batchEvents s' (drop (length (batchIndex s)) (batchIndex s')) = events s)"
proof (intro conjI impI allI)
  assume "batchSizeLimit opts < 512000 \<and> (\<forall>e\<in>set (events s). getRequestBodySize U [e] < 512000)"
  then show "\<exists>s'. generateBatches opts U s = Some s'"
    using generateBatches_terminates by blast
next
  fix s' assume g: "generateBatches opts U s = Some s'"
  from generateBatches_drained [OF g] assms have d: "drained U s s'" by simp
  show "events s' = []" using d by (simp add: drained_def)
  show "batchIndex s' = batchIndex s @ map (GUID U) [guidCalls s..<guidCalls s']"
    using d by (simp add: drained_def)
  show "batchEvents s' (drop (length (batchIndex s)) (batchIndex s')) = events s"
    using d by (simp add: drained_def)
qed

text \<open>
  Two big events and a small one under the default limit: the first batch holds the first
  big event, the second batch the other two events.
\<close>

lemma generateBatches_sample_run:
  "generateBatches defaultOptions sampleUtil
     (emptyState\<lparr>events := [sampleEvent ''big'', sampleEvent ''big'', sampleEvent ''a'']\<rparr>)
   = Some (emptyState
       \<lparr>batches := [''g'' \<mapsto> [sampleEvent ''big''], ''gg'' \<mapsto> [sampleEvent ''big'', sampleEvent ''a'']],
        batchIndex := [''g'', ''gg''],
        storedEvents := [],
        storedBatches := [''g'' \<mapsto> [sampleEvent ''big''], ''gg'' \<mapsto> [sampleEvent ''big'', sampleEvent ''a'']],
        storedBatchIndex := [''g'', ''gg''],
        guidCalls := 2\<rparr>)"
  by (simp add: generateBatches.simps findBatchSize.simps persistBatch_def Let_def)

theorem generateBatches_preserves_order_witness:
  "inj (GUID sampleUtil) \<and>
   (\<exists>s'. generateBatches defaultOptions sampleUtil
            (emptyState\<lparr>events := [sampleEvent ''big'', sampleEvent ''big'', sampleEvent ''a'']\<rparr>)
          = Some s' \<and>
          events s' = [] \<and>
          batchIndex s' = [''g'', ''gg''] \<and>
          batchEvents s' [''g'', ''gg''] = [sampleEvent ''big'', sampleEvent ''big'', sampleEvent ''a''])"
proof -
  have inj: "inj (GUID sampleUtil)" by (simp add: inj_def)
  from generateBatches_preserves_order [OF inj, of defaultOptions
      "emptyState\<lparr>events := [sampleEvent ''big'', sampleEvent ''big'', sampleEvent ''a'']\<rparr>"]
    generateBatches_sample_run inj
  show ?thesis by (simp add: numeral_2_eq_2)
qed


section \<open>The batch store and the response handler\<close>

lemma submitBatchById_store:
  "batches (snd (submitBatchById opts U so s)) = batches s \<and>
   batchIndex (snd (submitBatchById opts U so s)) = batchIndex s \<and>
   storedBatches (snd (submitBatchById opts U so s)) = storedBatches s \<and>
   storedBatchIndex (snd (submitBatchById opts U so s)) = storedBatchIndex s \<and>
   isThrottled (snd (submitBatchById opts U so s)) = isThrottled s"
  by (simp add: submitBatchById_def logged_def timestampNow_def Let_def split: option.splits)

lemma submitEach_store:
  "batches (snd (submitEach opts U so ids acc)) = batches (snd acc) \<and>
   batchIndex (snd (submitEach opts U so ids acc)) = batchIndex (snd acc) \<and>
   storedBatches (snd (submitEach opts U so ids acc)) = storedBatches (snd acc) \<and>
   storedBatchIndex (snd (submitEach opts U so ids acc)) = storedBatchIndex (snd acc) \<and>
   isThrottled (snd (submitEach opts U so ids acc)) = isThrottled (snd acc)"
proof (induction ids arbitrary: so acc)
  case Nil
  show ?case by simp
next
  case (Cons b rest)
  obtain indices s where acc: "acc = (indices, s)" by (cases acc)
  show ?case
    using Cons.IH submitBatchById_store
    by (simp add: acc Let_def split: prod.splits) (metis snd_conv)
qed

lemma submitAllBatches_store:
  "batches (snd (submitAllBatches opts U so s)) = batches s \<and>
   batchIndex (snd (submitAllBatches opts U so s)) = batchIndex s \<and>
   storedBatches (snd (submitAllBatches opts U so s)) = storedBatches s \<and>
   storedBatchIndex (snd (submitAllBatches opts U so s)) = storedBatchIndex s \<and>
   isThrottled (snd (submitAllBatches opts U so s)) = isThrottled s"
  using submitEach_store [of opts U _ "batchIndex s" "([], s)"]
  by (simp add: submitAllBatches_def Let_def)

text \<open>The handler is its first part, followed by the flush when the throttle was lifted.\<close>

lemma handler_unfold:
  "handlePutEventsResponse opts U b cb err data s =
     (if isThrottled s \<and> \<not> isThrottled (afterResponse b cb err data s) then
        snd (submitAllBatches opts U
               \<lparr>optBatchId = None, optClientContext = None, optSubmitCallback = Some cb\<rparr>
               (logged LWarn ''Was throttled flushing remaining batches''
                  (afterResponse b cb err data s)))
      else afterResponse b cb err data s)"
  unfolding handlePutEventsResponse_def afterResponse_def Let_def split_def
  by (rule refl)

lemma afterResponse_fields:
  "batches (afterResponse b cb err data s) =
     (if clearBatchFlag err then batches (clearBatchById b s) else batches s)"
  "batchIndex (afterResponse b cb err data s) =
     (if clearBatchFlag err then batchIndex (clearBatchById b s) else batchIndex s)"
  "storedBatches (afterResponse b cb err data s) =
     (if clearBatchFlag err then storedBatches (clearBatchById b s) else storedBatches s)"
  "storedBatchIndex (afterResponse b cb err data s) =
     (if clearBatchFlag err then storedBatchIndex (clearBatchById b s) else storedBatchIndex s)"
  "isThrottled (afterResponse b cb err data s) = throttledAfter err s"
  "batchesInFlight (afterResponse b cb err data s) = (batchesInFlight s)(b := None)"
  "trace (afterResponse b cb err data s) = trace s @ responseLog err data @ [Called cb err data b]"
  by (cases err; auto simp: afterResponse_def Let_def logged_def clearBatchById_def
        clearBatchFlag_def throttledAfter_def responseLog_def; fail)+

lemma handler_fields:
  "batches (handlePutEventsResponse opts U b cb err data s) =
     (if clearBatchFlag err then batches (clearBatchById b s) else batches s)"
  "batchIndex (handlePutEventsResponse opts U b cb err data s) =
     (if clearBatchFlag err then batchIndex (clearBatchById b s) else batchIndex s)"
  "storedBatches (handlePutEventsResponse opts U b cb err data s) =
     (if clearBatchFlag err then storedBatches (clearBatchById b s) else storedBatches s)"
  "storedBatchIndex (handlePutEventsResponse opts U b cb err data s) =
     (if clearBatchFlag err then storedBatchIndex (clearBatchById b s) else storedBatchIndex s)"
  "isThrottled (handlePutEventsResponse opts U b cb err data s) = throttledAfter err s"
  by (simp_all add: handler_unfold submitAllBatches_store logged_def afterResponse_fields)

lemma clearBatchById_fields:
  "batchIndex (clearBatchById b s) = remove1 b (batchIndex s)"
  "batches (clearBatchById b s) =
     (if b \<in> set (batchIndex s) then (batches s)(b := None) else batches s)"
  by (simp_all add: clearBatchById_def Let_def remove1_idem)

lemma clearBatchById_invariant:
  "storeInvariant s \<Longrightarrow> storeInvariant (clearBatchById b s)"
  by (auto simp: storeInvariant_def clearBatchById_def Let_def)

lemma persistBatch_invariant:
  "storeInvariant s \<Longrightarrow> GUID U (guidCalls s) \<notin> set (batchIndex s) \<Longrightarrow>
   storeInvariant (snd (persistBatch U evs s))"
  by (auto simp: storeInvariant_def persistBatch_def Let_def logged_def)

lemma handler_invariant:
  "storeInvariant s \<Longrightarrow> storeInvariant (handlePutEventsResponse opts U b cb err data s)"
  using clearBatchById_invariant [of s b]
  by (simp add: storeInvariant_def handler_fields)

text \<open>
  C10.  \<^verbatim>\<open>clearBatchById\<close> and the response handler keep the batch store consistent (no
  id twice in \<^verbatim>\<open>batchIndex\<close>, and the ids of \<^verbatim>\<open>batchIndex\<close> are the keys of
  \<^verbatim>\<open>batches\<close>), and so does \<^verbatim>\<open>persistBatch\<close> whenever the identifier it draws from
  \<^verbatim>\<open>Util.GUID\<close> is not yet in \<^verbatim>\<open>batchIndex\<close>.
\<close>

theorem store_invariant_preserved:
  assumes "storeInvariant s"
  shows "(GUID U (guidCalls s) \<notin> set (batchIndex s) \<longrightarrow>
            storeInvariant (snd (persistBatch U evs s))) \<and>
         storeInvariant (clearBatchById b s) \<and>
         storeInvariant (handlePutEventsResponse opts U b cb err data s)"
proof (intro conjI impI)
  assume "GUID U (guidCalls s) \<notin> set (batchIndex s)"
  with assms show "storeInvariant (snd (persistBatch U evs s))"
    by (rule persistBatch_invariant)
next
  from assms show "storeInvariant (clearBatchById b s)"
    by (rule clearBatchById_invariant)
next
  from assms show "storeInvariant (handlePutEventsResponse opts U b cb err data s)"
    by (rule handler_invariant)
qed

text \<open>
  The store with the one batch \<^verbatim>\<open>g\<close>: a second batch gets the fresh id \<^verbatim>\<open>gg\<close>, and
  clearing \<^verbatim>\<open>g\<close> or a successful response for it leaves a consistent store.
\<close>

theorem store_invariant_preserved_witness:
  "storeInvariant oneBatchState \<and>
   GUID sampleUtil (guidCalls oneBatchState) \<notin> set (batchIndex oneBatchState) \<and>
   storeInvariant (snd (persistBatch sampleUtil [sampleEvent ''b''] oneBatchState)) \<and>
   storeInvariant (clearBatchById ''g'' oneBatchState) \<and>
   storeInvariant (handlePutEventsResponse defaultOptions sampleUtil ''g'' 0 None None oneBatchState)"
proof -
  have inv: "storeInvariant oneBatchState" by (simp add: storeInvariant_def)
  have fresh: "GUID sampleUtil (guidCalls oneBatchState) \<notin> set (batchIndex oneBatchState)"
    by simp
  from store_invariant_preserved [OF inv, of sampleUtil "[sampleEvent ''b'']" "''g''"
      defaultOptions 0 None None] inv fresh
  show ?thesis by blast
qed

text \<open>
  C2, as the handler behaves.  After a failure whose status code is defined and is not
  400, the batch is cleared: its id is removed from \<^verbatim>\<open>batchIndex\<close> and, if it was
  there, from \<^verbatim>\<open>batches\<close>, so in a consistent store it is in neither afterwards.  The
  throttle flag is unchanged.
\<close>

theorem handler_other_status_clears_batch:
  assumes "err = Some e" and "statusCode e = Some n" and "n \<noteq> 400"
    and "s' = handlePutEventsResponse opts U b cb err data s"
  shows "batchIndex s' = remove1 b (batchIndex s) \<and>
         batches s' = (if b \<in> set (batchIndex s) then (batches s)(b := None) else batches s) \<and>
         isThrottled s' = isThrottled s \<and>
         (storeInvariant s \<longrightarrow> b \<notin> set (batchIndex s') \<and> b \<notin> dom (batches s'))"
proof -
  have clr: "clearBatchFlag err" and thr: "throttledAfter err s = isThrottled s"
    using assms(1-3) by (simp_all add: clearBatchFlag_def throttledAfter_def)
  show ?thesis
    unfolding assms(4)
    by (auto simp: handler_fields clr thr clearBatchById_fields storeInvariant_def)
qed

text \<open>A status 500 for the batch \<^verbatim>\<open>g\<close>: the store is empty afterwards.\<close>

theorem handler_other_status_clears_batch_witness:
  "storeInvariant oneBatchState \<and>
   batchIndex (handlePutEventsResponse defaultOptions sampleUtil ''g'' 0
      (Some \<lparr>statusCode = Some 500, code = Some ''InternalFailure''\<rparr>) None oneBatchState) = [] \<and>
   batches (handlePutEventsResponse defaultOptions sampleUtil ''g'' 0
      (Some \<lparr>statusCode = Some 500, code = Some ''InternalFailure''\<rparr>) None oneBatchState) = Map.empty \<and>
   isThrottled (handlePutEventsResponse defaultOptions sampleUtil ''g'' 0
      (Some \<lparr>statusCode = Some 500, code = Some ''InternalFailure''\<rparr>) None oneBatchState) = False"
proof -
  have inv: "storeInvariant oneBatchState" by (simp add: storeInvariant_def)
  from handler_other_status_clears_batch
    [of "Some \<lparr>statusCode = Some 500, code = Some ''InternalFailure''\<rparr>"
        "\<lparr>statusCode = Some 500, code = Some ''InternalFailure''\<rparr>" 500 _
        defaultOptions sampleUtil "''g''" 0 None oneBatchState, OF refl _ _ refl] inv
  show ?thesis by simp
qed

text \<open>
  The claim C2 as the specification words it fails for the batch \<^verbatim>\<open>g\<close> and the status
  500: the batch is in neither \<^verbatim>\<open>batchIndex\<close> nor \<^verbatim>\<open>batches\<close> afterwards.
\<close>

theorem handler_other_status_counterexample:
  "\<not> (''g'' \<in> set (batchIndex (handlePutEventsResponse defaultOptions sampleUtil ''g'' 0
          (Some \<lparr>statusCode = Some 500, code = Some ''InternalFailure''\<rparr>) None oneBatchState)) \<and>
       ''g'' \<in> dom (batches (handlePutEventsResponse defaultOptions sampleUtil ''g'' 0
          (Some \<lparr>statusCode = Some 500, code = Some ''InternalFailure''\<rparr>) None oneBatchState)) \<and>
       isThrottled (handlePutEventsResponse defaultOptions sampleUtil ''g'' 0
          (Some \<lparr>statusCode = Some 500, code = Some ''InternalFailure''\<rparr>) None oneBatchState)
         = isThrottled oneBatchState)"
  by (simp add: handler_fields clearBatchFlag_def clearBatchById_fields)

text \<open>
  C6.  Let \<^verbatim>\<open>batchIndex\<close> hold no id twice and let it hold the id of the batch.  After
  a successful response for the batch, or after a failure with no status code or status
  code 400 whose error code is one of \<^verbatim>\<open>BadRequestException\<close>,
  \<^verbatim>\<open>SerializationException\<close> and \<^verbatim>\<open>ValidationException\<close>, the client is not
  throttled, the batch is removed from \<^verbatim>\<open>batches\<close> and \<^verbatim>\<open>batchIndex\<close> and nothing
  else is, and both persisted slots hold the new values.
\<close>

theorem handler_clears_batch:
  assumes "distinct (batchIndex s)" and "b \<in> set (batchIndex s)"
    and "err = None \<or>
         (\<exists>e c. err = Some e \<and> (statusCode e = None \<or> statusCode e = Some 400) \<and>
                code e = Some c \<and> c \<in> set NON_RETRYABLE_EXCEPTIONS)"
    and "s' = handlePutEventsResponse opts U b cb err data s"
  shows "\<not> isThrottled s' \<and>
         batches s' = (batches s)(b := None) \<and> batchIndex s' = remove1 b (batchIndex s) \<and>
         b \<notin> dom (batches s') \<and> b \<notin> set (batchIndex s') \<and>
         storedBatches s' = batches s' \<and> storedBatchIndex s' = batchIndex s'"
proof -
  have clr: "clearBatchFlag err" using assms(3) by (auto simp: clearBatchFlag_def)
  have thr: "\<not> throttledAfter err s"
    using assms(3) by (auto simp: throttledAfter_def NON_RETRYABLE_EXCEPTIONS_def)
  show ?thesis
    using assms(1,2) clr thr
    by (simp add: assms(4) handler_fields clearBatchById_def Let_def)
qed

text \<open>
  A success and a \<^verbatim>\<open>ValidationException\<close> under status 400 for the batch \<^verbatim>\<open>g\<close>: both
  leave the store and the persisted slots empty.
\<close>

theorem handler_clears_batch_witness:
  "distinct (batchIndex oneBatchState) \<and> ''g'' \<in> set (batchIndex oneBatchState) \<and>
   batches (handlePutEventsResponse defaultOptions sampleUtil ''g'' 0 None None oneBatchState)
     = Map.empty \<and>
   batchIndex (handlePutEventsResponse defaultOptions sampleUtil ''g'' 0 None None oneBatchState)
     = [] \<and>
   storedBatchIndex (handlePutEventsResponse defaultOptions sampleUtil ''g'' 0 None None
     oneBatchState) = [] \<and>
   batchIndex (handlePutEventsResponse defaultOptions sampleUtil ''g'' 0
      (Some \<lparr>statusCode = Some 400, code = Some ''ValidationException''\<rparr>) None oneBatchState)
     = []"
proof -
  have inv: "distinct (batchIndex oneBatchState)" by simp
  have mem: "''g'' \<in> set (batchIndex oneBatchState)" by simp
  have bad: "(Some \<lparr>statusCode = Some 400, code = Some ''ValidationException''\<rparr>) = None \<or>
         (\<exists>e c. Some \<lparr>statusCode = Some 400, code = Some ''ValidationException''\<rparr> = Some e \<and>
                (statusCode e = None \<or> statusCode e = Some 400) \<and>
                code e = Some c \<and> c \<in> set NON_RETRYABLE_EXCEPTIONS)"
    by (simp add: NON_RETRYABLE_EXCEPTIONS_def)
  from handler_clears_batch [OF inv mem _ refl, of None defaultOptions sampleUtil 0 None]
    handler_clears_batch [OF inv mem bad refl, of defaultOptions sampleUtil 0 None]
    inv mem
  show ?thesis by simp
qed

subsection \<open>The flush after the throttle is lifted\<close>

lemma submitBatchById_Some:
  "b \<noteq> [] \<Longrightarrow> optBatchId so = Some b \<Longrightarrow>
   submitBatchById opts U so s =
     (Some b, s\<lparr>clockReads := Suc (clockReads s),
                 batchesInFlight := (batchesInFlight s)(b \<mapsto> clock U (clockReads s)),
                 trace := trace s @ [PutEvents b (batches s b)
                    (case optClientContext so of None \<Rightarrow> clientContext opts | Some c \<Rightarrow> c)
                    (case optSubmitCallback so of None \<Rightarrow> submitCallback opts | Some c \<Rightarrow> c)]\<rparr>)"
  by (simp add: submitBatchById_def timestampNow_def Let_def)

text \<open>
  Over an index without repeated or empty ids, the loop dispatches exactly the ids that
  were not in flight when it started, in the order of the index.
\<close>

lemma submitEach_trace:
  assumes "distinct ids" and "[] \<notin> set ids" and "optSubmitCallback so = Some cb"
    and "ctx = (case optClientContext so of None \<Rightarrow> clientContext opts | Some c \<Rightarrow> c)"
  shows "trace (snd (submitEach opts U so ids (ix, s))) =
           trace s @ map (\<lambda>i. PutEvents i (batches s i) ctx cb) (filter (notInFlight s) ids) \<and>
         fst (submitEach opts U so ids (ix, s)) = ix @ map Some (filter (notInFlight s) ids)"
  using assms
proof (induction ids arbitrary: so ix s)
  case Nil
  show ?case by simp
next
  case (Cons b rest)
  let ?so1 = "so\<lparr>optBatchId := Some b, optClientContext := Some ctx\<rparr>"
  from Cons.prems have b: "b \<noteq> []" and nb: "b \<notin> set rest"
    and dr: "distinct rest" and ne: "[] \<notin> set rest" by auto
  have so1: "optSubmitCallback ?so1 = Some cb"
    "ctx = (case optClientContext ?so1 of None \<Rightarrow> clientContext opts | Some c \<Rightarrow> c)"
    using Cons.prems by simp_all
  note IH = Cons.IH [OF dr ne so1]
  show ?case
  proof (cases "notInFlight s b")
    case False
    then show ?thesis using IH [of ix s] Cons.prems(4) by (simp add: Let_def)
  next
    case True
    define s1 where "s1 = s\<lparr>clockReads := Suc (clockReads s),
                 batchesInFlight := (batchesInFlight s)(b \<mapsto> clock U (clockReads s)),
                 trace := trace s @ [PutEvents b (batches s b) ctx cb]\<rparr>"
    have sb: "submitBatchById opts U ?so1 s = (Some b, s1)"
      using submitBatchById_Some [OF b, of ?so1 opts U s] Cons.prems(3) by (simp add: s1_def)
    have same: "filter (notInFlight s1) rest = filter (notInFlight s) rest"
      using nb by (intro filter_cong) (auto simp: notInFlight_def s1_def)
    have bt: "batches s1 = batches s" by (simp add: s1_def)
    show ?thesis
      using True IH [of "ix @ [Some b]" s1] Cons.prems(4) sb
      by (simp add: Let_def same bt) (simp add: s1_def)
  qed
qed

text \<open>
  C9.  Let the client be throttled before a response and not throttled after it, in a
  store whose index has no repeated and no empty id.  Then the handler logs the response,
  calls the callback with \<^verbatim>\<open>(err, data, batchId)\<close>, logs the flush and dispatches, in
  the order of \<^verbatim>\<open>batchIndex\<close>, every batch that is still stored and is not in flight
  once the answered batch has been taken out of \<^verbatim>\<open>batchesInFlight\<close>; it does nothing
  else.
\<close>

theorem handler_flushes_after_throttle:
  assumes "isThrottled s"
    and "s' = handlePutEventsResponse opts U b cb err data s"
    and "\<not> isThrottled s'"
    and "distinct (batchIndex s)" and "[] \<notin> set (batchIndex s)"
  shows "trace s' = trace s @ responseLog err data @
           [Called cb err data b, Logged LWarn ''Was throttled flushing remaining batches''] @
           map (\<lambda>i. PutEvents i (batches s' i) (clientContext opts) cb)
             (filter (notInFlight (s\<lparr>batchesInFlight := (batchesInFlight s)(b := None)\<rparr>))
                (batchIndex s'))"
proof -
  let ?a = "afterResponse b cb err data s"
  let ?w = "logged LWarn ''Was throttled flushing remaining batches'' ?a"
  let ?so = "\<lparr>optBatchId = None, optClientContext = None, optSubmitCallback = Some cb\<rparr>"
  have nt: "\<not> isThrottled ?a"
  proof
    assume t: "isThrottled ?a"
    then have "s' = ?a" using assms(2) by (simp add: handler_unfold)
    with t assms(3) show False by simp
  qed
  then have s': "s' = snd (submitAllBatches opts U ?so ?w)"
    using assms(1,2) by (simp add: handler_unfold)
  have idx: "batchIndex ?w = batchIndex ?a" and bat: "batches ?w = batches ?a"
    and tr: "trace ?w = trace ?a @ [Logged LWarn ''Was throttled flushing remaining batches'']"
    by (simp_all add: logged_def)
  have d: "distinct (batchIndex ?w)" and ne: "[] \<notin> set (batchIndex ?w)"
    using assms(4,5) by (auto simp: idx afterResponse_fields clearBatchById_def Let_def
        dest: notin_set_remove1)
  have nif: "notInFlight ?w = notInFlight (s\<lparr>batchesInFlight := (batchesInFlight s)(b := None)\<rparr>)"
    by (rule ext) (simp add: notInFlight_def logged_def afterResponse_fields)
  have keep: "batchIndex s' = batchIndex ?w" "batches s' = batches ?w"
    using submitAllBatches_store [of opts U ?so ?w] by (simp_all add: s')
  from submitEach_trace [OF d ne, of "?so\<lparr>optSubmitCallback := Some cb\<rparr>" cb
      "clientContext opts" opts U "[]" ?w]
  have "trace s' = trace ?w @ map (\<lambda>i. PutEvents i (batches ?w i) (clientContext opts) cb)
           (filter (notInFlight ?w) (batchIndex ?w))"
    by (simp add: s' submitAllBatches_def Let_def)
  then show ?thesis
    by (simp add: keep nif tr afterResponse_fields)
qed

text \<open>
  The throttled client with the batches \<^verbatim>\<open>g\<close> (in flight) and \<^verbatim>\<open>gg\<close>: the success
  for \<^verbatim>\<open>g\<close> lifts the throttle, and the flush dispatches \<^verbatim>\<open>gg\<close>.
\<close>

theorem handler_flushes_after_throttle_witness:
  "isThrottled throttledState \<and>
   \<not> isThrottled (handlePutEventsResponse defaultOptions sampleUtil ''g'' 7 None None throttledState) \<and>
   distinct (batchIndex throttledState) \<and> [] \<notin> set (batchIndex throttledState) \<and>
   trace (handlePutEventsResponse defaultOptions sampleUtil ''g'' 7 None None throttledState) =
     [Logged LInfo ''Events Submitted Successfully'',
      Called 7 None None ''g'',
      Logged LWarn ''Was throttled flushing remaining batches'',
      PutEvents ''gg'' (Some [sampleEvent ''b'']) ''{}'' 7]"
proof -
  have nt: "\<not> isThrottled (handlePutEventsResponse defaultOptions sampleUtil ''g'' 7 None None
      throttledState)"
    by (simp add: handler_fields throttledAfter_def)
  have t: "isThrottled throttledState" and d: "distinct (batchIndex throttledState)"
    and ne: "[] \<notin> set (batchIndex throttledState)" by simp_all
  from handler_flushes_after_throttle [OF t refl nt d ne] nt
  show ?thesis
    by (simp add: handler_fields clearBatchFlag_def clearBatchById_fields responseLog_def
          notInFlight_def)
qed


section \<open>The submission gate\<close>

text \<open>The state in which \<^verbatim>\<open>submitEvents\<close> evaluates its gate: the timer has been re-armed.\<close>

lemma submitEvents_refuses:
  assumes "s1 = (if autoSubmitEvents opts then
                  s\<lparr>trace := trace s @ [ClearTimeout (timeoutReference s),
                                         SetTimeout (timersSet s) (autoSubmitInterval opts)],
                    timeoutReference := Some (timersSet s),
                    timersSet := Suc (timersSet s)\<rparr>
                else s)"
    and "warnMessage U rnd s1 = (Some msg, s2)"
  shows "submitEvents opts U rnd optionsArg s = Some ([], logged LWarn msg s2)"
  using assms(2) unfolding assms(1) by (simp add: submitEvents_def Let_def)

text \<open>
  C3.  A client with an empty queue, an empty batch store, nothing in flight, no throttle
  and no earlier submission is not refused by \<^verbatim>\<open>submitEvents\<close>: the test
  \<^verbatim>\<open>batches.length === 0\<close> is false for the object \<^verbatim>\<open>batches\<close>, so no warning is
  logged, the batch generator runs and \<^verbatim>\<open>lastSubmitTimestamp\<close> is set to the reading of
  the clock.  The only effect on the trace is the re-armed timer.
\<close>

theorem submitEvents_nothing_pending_not_refused:
  assumes "events s = []" and "batches s = Map.empty" and "batchIndex s = []"
    and "batchesInFlight s = Map.empty" and "\<not> isThrottled s"
    and "lastSubmitTimestamp s = None"
  shows "\<exists>s'. submitEvents opts U rnd optionsArg s = Some ([], s') \<and>
              lastSubmitTimestamp s' = Some (clock U (clockReads s)) \<and>
              trace s' = trace s @
                (if autoSubmitEvents opts
                 then [ClearTimeout (timeoutReference s),
                       SetTimeout (timersSet s) (autoSubmitInterval opts)]
                 else [])"
  using assms
  by (simp add: submitEvents_def warnMessage_def batchesLengthIsZero_def generateBatches_empty
        timestampNow_def submitAllBatches_def Let_def)

theorem submitEvents_nothing_pending_not_refused_witness:
  "submitEvents defaultOptions sampleUtil (1 / 2) None emptyState =
     Some ([], emptyState \<lparr> lastSubmitTimestamp := Some 5000,
                              timeoutReference := Some 0,
                              trace := [ClearTimeout None, SetTimeout 0 10000],
                              clockReads := 1, timersSet := 1 \<rparr>)"
proof -
  have run: "submitEvents defaultOptions sampleUtil (1 / 2) None emptyState =
     Some ([], emptyState \<lparr> lastSubmitTimestamp := Some 5000,
                              timeoutReference := Some 0,
                              trace := [ClearTimeout None, SetTimeout 0 10000],
                              clockReads := 1, timersSet := 1 \<rparr>)"
    by (simp add: submitEvents_def warnMessage_def batchesLengthIsZero_def
          generateBatches_empty timestampNow_def submitAllBatches_def Let_def)
  from submitEvents_nothing_pending_not_refused
    [of emptyState defaultOptions sampleUtil "1 / 2" None] run
  show ?thesis by simp
qed

subsection \<open>The throttle gate\<close>

lemma throttlingSuppressionFunction_value:
  assumes "lastSubmitTimestamp s = Some l"
  shows "throttlingSuppressionFunction U None s =
           (Num (suppressionValue (clock U (clockReads s) - l)),
            s\<lparr>clockReads := Suc (clockReads s)\<rparr>)"
  using assms
  by (simp add: throttlingSuppressionFunction_def timestampNow_def suppressionValue_def
        denominator)

lemma batchesLengthIsZero_never: "\<not> batchesLengthIsZero b"
  by (simp add: batchesLengthIsZero_def split: option.splits)

text \<open>
  The gate of a throttled client whose \<^verbatim>\<open>lastSubmitTimestamp\<close> is set, branch by
  branch; the test of the empty store is never true.
\<close>

lemma warnMessage_throttled:
  assumes "isThrottled s" and "lastSubmitTimestamp s = Some l"
  shows "warnMessage U rnd s =
     (if suppressionValue (clock U (clockReads s) - l) < rnd then
        (Some ''Prevented submission while throttled'', s\<lparr>clockReads := Suc (clockReads s)\<rparr>)
      else if dom (batchesInFlight s) \<noteq> {} then
        (Some ''Prevented submission while batches are in flight'',
         s\<lparr>clockReads := Suc (clockReads s)\<rparr>)
      else if l = 0 then (None, s\<lparr>clockReads := Suc (clockReads s)\<rparr>)
      else if clock U (Suc (clockReads s)) - l < 1000 then
        (Some ''Prevented multiple submissions in under a second'',
         s\<lparr>clockReads := Suc (Suc (clockReads s))\<rparr>)
      else (None, s\<lparr>clockReads := Suc (Suc (clockReads s))\<rparr>))"
  using assms
  by (simp add: warnMessage_def throttlingSuppressionFunction_value batchesLengthIsZero_never
        timestampNow_def Let_def)

lemma armTimer_fields:
  "isThrottled (armTimer opts s) = isThrottled s"
  "lastSubmitTimestamp (armTimer opts s) = lastSubmitTimestamp s"
  "clockReads (armTimer opts s) = clockReads s"
  "batchesInFlight (armTimer opts s) = batchesInFlight s"
  by (simp_all add: armTimer_def)

lemma submitEvents_unfold:
  "submitEvents opts U rnd optionsArg s =
     (let so0 = (case optionsArg of
                   None \<Rightarrow> \<lparr>optBatchId = None, optClientContext = None, optSubmitCallback = None\<rparr>
                 | Some so \<Rightarrow> so);
          so = so0\<lparr>optSubmitCallback :=
                     Some (case optSubmitCallback so0 of None \<Rightarrow> submitCallback opts | Some c \<Rightarrow> c)\<rparr>
      in case warnMessage U rnd (armTimer opts s) of
           (Some msg, s2) \<Rightarrow> Some ([], logged LWarn msg s2)
         | (None, s2) \<Rightarrow>
             (case generateBatches opts U s2 of
                None \<Rightarrow> None
              | Some s3 \<Rightarrow>
                  (let (t, s4) = timestampNow U s3;
                       s5 = s4\<lparr>lastSubmitTimestamp := Some t\<rparr>
                   in if isThrottled s5 then
                        (let s6 = logged LWarn ''Is throttled submitting first batch'' s5;
                             so1 = so\<lparr>optBatchId :=
                                        (case batchIndex s6 of [] \<Rightarrow> None | b # _ \<Rightarrow> Some b)\<rparr>;
                             (r, s7) = submitBatchById opts U so1 s6
                         in Some ([r], s7))
                      else Some (submitAllBatches opts U so s5))))"
  unfolding submitEvents_def armTimer_def Let_def by (rule refl)

text \<open>The batch generator does not touch the throttle flag.\<close>

lemma generateBatches_isThrottled:
  assumes "generateBatches opts U s = Some s'"
  shows "isThrottled s' = isThrottled s"
proof (rule generateBatches.raw_induct
    [where P = "\<lambda>opts U s y. isThrottled y = isThrottled s", OF _ assms])
  fix loop :: "options \<Rightarrow> util \<Rightarrow> state \<Rightarrow> state option" and opts U s s'
  assume IH: "\<And>opts U s y. loop opts U s = Some y \<Longrightarrow> isThrottled y = isThrottled s"
  assume step:
    "(if 0 < length (events s)
      then let lastIndex = findBatchSize opts U (events s) (length (events s))
           in case persistBatch U (take lastIndex (events s)) s of
              (persisted, s1) \<Rightarrow>
                if persisted
                then loop opts U
                      (let s2 = s1\<lparr>events := drop lastIndex (events s1)\<rparr>
                       in s2\<lparr>storedEvents := events s2\<rparr>)
                else loop opts U s1
      else Some s) = Some s'"
  show "isThrottled s' = isThrottled s"
  proof (cases "events s = []")
    case True
    with step show ?thesis by auto
  next
    case False
    define k where "k = findBatchSize opts U (events s) (length (events s))"
    obtain persisted s1 where pb: "persistBatch U (take k (events s)) s = (persisted, s1)"
      by (cases "persistBatch U (take k (events s)) s")
    then have s1: "isThrottled s1 = isThrottled s"
      by (auto simp: persistBatch_def Let_def logged_def split: if_splits)
    show ?thesis
    proof (cases persisted)
      case True
      with step False pb have "loop opts U (let s2 = s1\<lparr>events := drop k (events s1)\<rparr>
                       in s2\<lparr>storedEvents := events s2\<rparr>) = Some s'"
        by (simp add: Let_def k_def [symmetric])
      from IH [OF this] s1 show ?thesis by (simp add: Let_def)
    next
      case False
      with step \<open>events s \<noteq> []\<close> pb have "loop opts U s1 = Some s'"
        by (simp add: Let_def k_def [symmetric])
      from IH [OF this] s1 show ?thesis by simp
    qed
  qed
qed

text \<open>A draw above the computed value: the call is refused with the throttle warning.\<close>

lemma submitEvents_throttle_refusal:
  assumes "isThrottled s" and "lastSubmitTimestamp s = Some l"
    and "suppressionValue (clock U (clockReads s) - l) < rnd"
  shows "submitEvents opts U rnd optionsArg s =
           Some ([], logged LWarn ''Prevented submission while throttled''
                       ((armTimer opts s)\<lparr>clockReads := Suc (clockReads s)\<rparr>))"
  using assms
  by (simp add: submitEvents_unfold warnMessage_throttled armTimer_fields)

text \<open>A draw at or below the computed value: never the throttle warning.\<close>

lemma submitEvents_throttle_passed:
  assumes "isThrottled s" and "lastSubmitTimestamp s = Some l"
    and "\<not> suppressionValue (clock U (clockReads s) - l) < rnd"
  shows "submitEvents opts U rnd optionsArg s \<noteq>
           Some ([], logged LWarn ''Prevented submission while throttled'' s')"
proof
  assume eq: "submitEvents opts U rnd optionsArg s =
           Some ([], logged LWarn ''Prevented submission while throttled'' s')"
  let ?a = "armTimer opts s"
  have ta: "isThrottled ?a" and la: "lastSubmitTimestamp ?a = Some l"
    using assms(1,2) by (simp_all add: armTimer_fields)
  obtain w s2 where wm: "warnMessage U rnd ?a = (w, s2)" by (cases "warnMessage U rnd ?a")
  show False
  proof (cases w)
    case (Some msg)
    from wm Some assms(3) have "msg \<noteq> ''Prevented submission while throttled''"
      by (auto simp: warnMessage_throttled [OF ta la] armTimer_fields split: if_splits)
    moreover from eq wm Some
    have "logged LWarn msg s2 = logged LWarn ''Prevented submission while throttled'' s'"
      by (simp add: submitEvents_unfold)
    then have "trace (logged LWarn msg s2) =
        trace (logged LWarn ''Prevented submission while throttled'' s')" by simp
    then have "msg = ''Prevented submission while throttled''" by (simp add: logged_def)
    ultimately show False by simp
  next
    case None
    have t2: "isThrottled s2"
      using wm ta by (auto simp: warnMessage_throttled [OF ta la] split: if_splits)
    show False
    proof (cases "generateBatches opts U s2")
      case None
      with eq wm \<open>w = None\<close> show False by (simp add: submitEvents_unfold)
    next
      case (Some s3)
      from generateBatches_isThrottled [OF Some] t2 have "isThrottled s3" by simp
      with eq wm \<open>w = None\<close> Some show False
        by (simp add: submitEvents_unfold timestampNow_def Let_def split: prod.splits)
    qed
  qed
qed

text \<open>
  A draw at or below the computed value, nothing in flight, a second since the last
  submission and a batch generator that returns with a first batch: the call records the
  time and dispatches that batch alone.
\<close>

lemma submitEvents_throttle_proceeds:
  assumes "isThrottled s" and "lastSubmitTimestamp s = Some l"
    and "\<not> suppressionValue (clock U (clockReads s) - l) < rnd"
    and "batchesInFlight s = Map.empty"
    and "l = 0 \<or> 1000 \<le> clock U (Suc (clockReads s)) - l"
    and "generateBatches opts U
           ((armTimer opts s)\<lparr>clockReads := clockReads s + (if l = 0 then 1 else 2)\<rparr>) = Some s3"
    and "batchIndex s3 = b # rest" and "b \<noteq> []"
  shows "\<exists>s'. submitEvents opts U rnd optionsArg s = Some ([Some b], s') \<and>
              lastSubmitTimestamp s' = Some (clock U (clockReads s3)) \<and>
              batchesInFlight s' = (batchesInFlight s3)(b \<mapsto> clock U (Suc (clockReads s3))) \<and>
              trace s' = trace s3 @
                [Logged LWarn ''Is throttled submitting first batch'',
                 PutEvents b (batches s3 b)
                   (case optionsArg of
                      None \<Rightarrow> clientContext opts
                    | Some so \<Rightarrow> (case optClientContext so of
                                   None \<Rightarrow> clientContext opts | Some c \<Rightarrow> c))
                   (case optionsArg of
                      None \<Rightarrow> submitCallback opts
                    | Some so \<Rightarrow> (case optSubmitCallback so of
                                   None \<Rightarrow> submitCallback opts | Some c \<Rightarrow> c))]"
proof -
  let ?a = "armTimer opts s"
  let ?g = "?a\<lparr>clockReads := clockReads s + (if l = 0 then 1 else 2)\<rparr>"
  have ta: "isThrottled ?a" and la: "lastSubmitTimestamp ?a = Some l"
    using assms(1,2) by (simp_all add: armTimer_fields)
  have wm: "warnMessage U rnd ?a = (None, ?g)"
    using assms(3,4,5) by (auto simp: warnMessage_throttled [OF ta la] armTimer_fields)
  have "isThrottled ?g" using ta by simp
  with generateBatches_isThrottled [OF assms(6)] have t3: "isThrottled s3" by simp
  show ?thesis
    using wm assms(6,7,8) t3
    by (cases optionsArg)
       (simp_all add: submitEvents_unfold timestampNow_def Let_def logged_def
          submitBatchById_def split: option.splits)
qed


text \<open>Nothing in flight, throttled, 59700 ms after the last submission.\<close>

lemma sample_gate_value:
  "suppressionValue 59700 = 8917352442174951 / 9007199254740992"
  using suppressionValue_small [of 59700] round_59700 by simp

text \<open>
  C8, as the gate behaves.  Let the client be throttled with \<^verbatim>\<open>lastSubmitTimestamp\<close>
  set, let \<open>elapsed\<close> be the reading of the clock minus \<^verbatim>\<open>lastSubmitTimestamp\<close> and let
  \<open>rnd\<close> in \<open>[0, 1)\<close> be the one value drawn from \<^verbatim>\<open>Math.random()\<close>.  The bound of the
  gate is the real ramp \<open>min(1, elapsed\<^sup>2 / 60000\<^sup>2)\<close> rounded to the nearest double, which
  differs from the ramp by at most the ramp divided by 2 to the power 53.  A draw above the bound makes
  \<^verbatim>\<open>submitEvents\<close> log the throttle warning and return no ids, with the state otherwise
  as the re-armed timer and the reading of the clock left it.  A draw at or below the bound
  never ends in the throttle warning, and when moreover nothing is in flight, a second has
  passed since the last submission and the batch generator returns with a first batch, the
  call records the time, logs that it submits the first batch and dispatches that batch
  alone.  For a uniform draw the bound is thus the probability of getting past the throttle
  gate; it is at least 0.99 from 59700 ms on and is 1 from 60000 ms on.
\<close>

theorem throttle_gate_rounded_ramp:
  assumes "isThrottled s" and "lastSubmitTimestamp s = Some l"
    and "0 \<le> rnd" and "rnd < 1"
    and "elapsed = clock U (clockReads s) - l"
  shows "(\<not> rnd \<le> roundDouble (allowProbability elapsed) \<longrightarrow>
            submitEvents opts U rnd optionsArg s =
              Some ([], logged LWarn ''Prevented submission while throttled''
                          ((armTimer opts s)\<lparr>clockReads := Suc (clockReads s)\<rparr>))) \<and>
         (rnd \<le> roundDouble (allowProbability elapsed) \<longrightarrow>
            (\<forall>s'. submitEvents opts U rnd optionsArg s \<noteq>
                    Some ([], logged LWarn ''Prevented submission while throttled'' s')) \<and>
            (batchesInFlight s = Map.empty \<and>
             (l = 0 \<or> 1000 \<le> clock U (Suc (clockReads s)) - l) \<and>
             generateBatches opts U
               ((armTimer opts s)\<lparr>clockReads := clockReads s + (if l = 0 then 1 else 2)\<rparr>)
               = Some s3 \<and>
             batchIndex s3 = b # rest \<and> b \<noteq> [] \<longrightarrow>
             (\<exists>s'. submitEvents opts U rnd optionsArg s = Some ([Some b], s') \<and>
                   lastSubmitTimestamp s' = Some (clock U (clockReads s3)) \<and>
                   batchesInFlight s' =
                     (batchesInFlight s3)(b \<mapsto> clock U (Suc (clockReads s3))) \<and>
                   trace s' = trace s3 @
                     [Logged LWarn ''Is throttled submitting first batch'',
                      PutEvents b (batches s3 b)
                        (case optionsArg of
                           None \<Rightarrow> clientContext opts
                         | Some so \<Rightarrow> (case optClientContext so of
                                        None \<Rightarrow> clientContext opts | Some c \<Rightarrow> c))
                        (case optionsArg of
                           None \<Rightarrow> submitCallback opts
                         | Some so \<Rightarrow> (case optSubmitCallback so of
                                        None \<Rightarrow> submitCallback opts | Some c \<Rightarrow> c))]))) \<and>
         \<bar>roundDouble (allowProbability elapsed) - allowProbability elapsed\<bar>
           \<le> allowProbability elapsed / 2 ^ 53 \<and>
         (59700 \<le> elapsed \<longrightarrow> 99 / 100 \<le> roundDouble (allowProbability elapsed)) \<and>
         (60000 \<le> elapsed \<longrightarrow> roundDouble (allowProbability elapsed) = 1)"
proof -
  let ?bound = "roundDouble (allowProbability elapsed)"
  have gate: "(suppressionValue (clock U (clockReads s) - l) < rnd) = (\<not> rnd \<le> ?bound)"
    using suppression_gate [OF assms(4), of elapsed] assms(5) by auto
  have refused: "\<not> rnd \<le> ?bound \<longrightarrow>
            submitEvents opts U rnd optionsArg s =
              Some ([], logged LWarn ''Prevented submission while throttled''
                          ((armTimer opts s)\<lparr>clockReads := Suc (clockReads s)\<rparr>))"
    using submitEvents_throttle_refusal [OF assms(1,2), of U rnd opts optionsArg] gate by simp
  have passed: "rnd \<le> ?bound \<longrightarrow>
            (\<forall>s'. submitEvents opts U rnd optionsArg s \<noteq>
                    Some ([], logged LWarn ''Prevented submission while throttled'' s'))"
    using submitEvents_throttle_passed [OF assms(1,2), of U rnd opts optionsArg] gate by simp
  have proceeds: "rnd \<le> ?bound \<longrightarrow>
            (batchesInFlight s = Map.empty \<and>
             (l = 0 \<or> 1000 \<le> clock U (Suc (clockReads s)) - l) \<and>
             generateBatches opts U
               ((armTimer opts s)\<lparr>clockReads := clockReads s + (if l = 0 then 1 else 2)\<rparr>)
               = Some s3 \<and>
             batchIndex s3 = b # rest \<and> b \<noteq> [] \<longrightarrow>
             (\<exists>s'. submitEvents opts U rnd optionsArg s = Some ([Some b], s') \<and>
                   lastSubmitTimestamp s' = Some (clock U (clockReads s3)) \<and>
                   batchesInFlight s' =
                     (batchesInFlight s3)(b \<mapsto> clock U (Suc (clockReads s3))) \<and>
                   trace s' = trace s3 @
                     [Logged LWarn ''Is throttled submitting first batch'',
                      PutEvents b (batches s3 b)
                        (case optionsArg of
                           None \<Rightarrow> clientContext opts
                         | Some so \<Rightarrow> (case optClientContext so of
                                        None \<Rightarrow> clientContext opts | Some c \<Rightarrow> c))
                        (case optionsArg of
                           None \<Rightarrow> submitCallback opts
                         | Some so \<Rightarrow> (case optSubmitCallback so of
                                        None \<Rightarrow> submitCallback opts | Some c \<Rightarrow> c))]))"
  proof (intro impI)
    assume le: "rnd \<le> ?bound"
    assume open_gates: "batchesInFlight s = Map.empty \<and>
             (l = 0 \<or> 1000 \<le> clock U (Suc (clockReads s)) - l) \<and>
             generateBatches opts U
               ((armTimer opts s)\<lparr>clockReads := clockReads s + (if l = 0 then 1 else 2)\<rparr>)
               = Some s3 \<and>
             batchIndex s3 = b # rest \<and> b \<noteq> []"
    from le gate have ns: "\<not> suppressionValue (clock U (clockReads s) - l) < rnd" by simp
    from open_gates have 1: "batchesInFlight s = Map.empty"
      and 2: "l = 0 \<or> 1000 \<le> clock U (Suc (clockReads s)) - l"
      and 3: "generateBatches opts U
               ((armTimer opts s)\<lparr>clockReads := clockReads s + (if l = 0 then 1 else 2)\<rparr>)
               = Some s3"
      and 4: "batchIndex s3 = b # rest" and 5: "b \<noteq> []" by blast+
    show "\<exists>s'. submitEvents opts U rnd optionsArg s = Some ([Some b], s') \<and>
                   lastSubmitTimestamp s' = Some (clock U (clockReads s3)) \<and>
                   batchesInFlight s' =
                     (batchesInFlight s3)(b \<mapsto> clock U (Suc (clockReads s3))) \<and>
                   trace s' = trace s3 @
                     [Logged LWarn ''Is throttled submitting first batch'',
                      PutEvents b (batches s3 b)
                        (case optionsArg of
                           None \<Rightarrow> clientContext opts
                         | Some so \<Rightarrow> (case optClientContext so of
                                        None \<Rightarrow> clientContext opts | Some c \<Rightarrow> c))
                        (case optionsArg of
                           None \<Rightarrow> submitCallback opts
                         | Some so \<Rightarrow> (case optSubmitCallback so of
                                        None \<Rightarrow> submitCallback opts | Some c \<Rightarrow> c))]"
      by (rule submitEvents_throttle_proceeds [OF assms(1,2) ns 1 2 3 4 5])
  qed
  have "0 \<le> allowProbability elapsed" by (simp add: allowProbability_def)
  with roundDouble_error [of "allowProbability elapsed"]
  have err: "\<bar>?bound - allowProbability elapsed\<bar> \<le> allowProbability elapsed / 2 ^ 53"
    by simp
  have b1: "59700 \<le> elapsed \<longrightarrow> 99 / 100 \<le> ?bound" using allow_bound_59700 by blast
  have b2: "60000 \<le> elapsed \<longrightarrow> ?bound = 1" using allow_bound_60000 by blast
  from refused passed proceeds err b1 b2 show ?thesis by blast
qed

text \<open>
  The throttled client with the batches \<^verbatim>\<open>g\<close> and \<^verbatim>\<open>gg\<close> and nothing in flight.
  59700 ms after the last submission the draw 0.98 gets past the gate and the batch
  \<^verbatim>\<open>g\<close> alone is dispatched; 30000 ms after it the draw 0.5 is refused.
\<close>

theorem throttle_gate_rounded_ramp_witness:
  "isThrottled (throttledState\<lparr>batchesInFlight := Map.empty, clockReads := 59700\<rparr>) \<and>
   lastSubmitTimestamp (throttledState\<lparr>batchesInFlight := Map.empty, clockReads := 59700\<rparr>)
     = Some 5000 \<and>
   99 / 100 \<le> roundDouble (allowProbability 59700) \<and>
   (\<exists>s'. submitEvents defaultOptions sampleUtil (98 / 100) None
            (throttledState\<lparr>batchesInFlight := Map.empty, clockReads := 59700\<rparr>)
          = Some ([Some ''g''], s') \<and>
         lastSubmitTimestamp s' = Some 64702 \<and>
         batchesInFlight s' = [''g'' \<mapsto> 64703] \<and>
         trace s' = [ClearTimeout None, SetTimeout 0 10000,
                     Logged LWarn ''Is throttled submitting first batch'',
                     PutEvents ''g'' (Some [sampleEvent ''a'']) ''{}'' 0]) \<and>
   \<not> 1 / 2 \<le> roundDouble (allowProbability 30000) \<and>
   submitEvents defaultOptions sampleUtil (1 / 2) None
       (throttledState\<lparr>batchesInFlight := Map.empty, clockReads := 30000\<rparr>)
     = Some ([], logged LWarn ''Prevented submission while throttled''
                   ((armTimer defaultOptions
                       (throttledState\<lparr>batchesInFlight := Map.empty, clockReads := 30000\<rparr>))
                      \<lparr>clockReads := 30001\<rparr>))"
proof -
  let ?S = "throttledState\<lparr>batchesInFlight := Map.empty, clockReads := 59700\<rparr>"
  let ?T = "throttledState\<lparr>batchesInFlight := Map.empty, clockReads := 30000\<rparr>"
  let ?s3 = "(armTimer defaultOptions ?S)\<lparr>clockReads := 59702\<rparr>"
  have gen: "generateBatches defaultOptions sampleUtil ?s3 = Some ?s3"
    by (rule generateBatches_empty) (simp add: armTimer_def)
  have ap: "allowProbability 30000 = 1 / 4" by (simp add: allowProbability_def)
  note high = throttle_gate_rounded_ramp
      [of ?S 5000 "98 / 100" 59700 sampleUtil defaultOptions None ?s3 "''g''" "[''gg'']"]
  note low = throttle_gate_rounded_ramp
      [of ?T 5000 "1 / 2" 30000 sampleUtil defaultOptions None ?s3 "''g''" "[''gg'']"]
  have bound: "99 / 100 \<le> roundDouble (allowProbability 59700)"
    using high by simp
  have "\<bar>roundDouble (allowProbability 30000) - allowProbability 30000\<bar>
      \<le> allowProbability 30000 / 2 ^ 53"
    using low by simp
  then have "roundDouble (1 / 4) \<le> 1 / 4 + (1 / 4) / 2 ^ 53"
    unfolding ap by linarith
  then have small: "\<not> 1 / 2 \<le> roundDouble (allowProbability 30000)"
    unfolding ap by simp
  have run: "\<exists>s'. submitEvents defaultOptions sampleUtil (98 / 100) None ?S
          = Some ([Some ''g''], s') \<and>
         lastSubmitTimestamp s' = Some 64702 \<and>
         batchesInFlight s' = [''g'' \<mapsto> 64703] \<and>
         trace s' = [ClearTimeout None, SetTimeout 0 10000,
                     Logged LWarn ''Is throttled submitting first batch'',
                     PutEvents ''g'' (Some [sampleEvent ''a'']) ''{}'' 0]"
    using high bound gen by (simp add: armTimer_def)
  have refuse: "submitEvents defaultOptions sampleUtil (1 / 2) None ?T
     = Some ([], logged LWarn ''Prevented submission while throttled''
                   ((armTimer defaultOptions ?T)\<lparr>clockReads := 30001\<rparr>))"
    using low small by simp
  from bound run small refuse show ?thesis by simp
qed

text \<open>
  The claim C8 as the specification words it, with the ramp over the real numbers, fails
  59700 ms after the last submission: the ramp is 0.990025, the draw
  \<open>8917352442174951 / 9007199254740992\<close> lies above it, and the call still gets past the throttle
  gate and dispatches the first batch.
\<close>

theorem throttle_gate_real_ramp_counterexample:
  "allowProbability 59700 < 8917352442174951 / 9007199254740992 \<and>
   submitEvents defaultOptions sampleUtil (8917352442174951 / 9007199254740992) None
       (throttledState\<lparr>batchesInFlight := Map.empty, clockReads := 59700\<rparr>)
     = Some ([Some ''g''],
         throttledState
           \<lparr>batchesInFlight := [''g'' \<mapsto> 64703], lastSubmitTimestamp := Some 64702,
            timeoutReference := Some 0,
            trace := [ClearTimeout None, SetTimeout 0 10000,
                      Logged LWarn ''Is throttled submitting first batch'',
                      PutEvents ''g'' (Some [sampleEvent ''a'']) ''{}'' 0],
            clockReads := 59704, timersSet := 1\<rparr>)"
proof -
  have 1: "allowProbability 59700 < 8917352442174951 / 9007199254740992"
    by (simp add: allowProbability_def)
  have 2: "submitEvents defaultOptions sampleUtil (8917352442174951 / 9007199254740992) None
       (throttledState\<lparr>batchesInFlight := Map.empty, clockReads := 59700\<rparr>)
     = Some ([Some ''g''],
         throttledState
           \<lparr>batchesInFlight := [''g'' \<mapsto> 64703], lastSubmitTimestamp := Some 64702,
            timeoutReference := Some 0,
            trace := [ClearTimeout None, SetTimeout 0 10000,
                      Logged LWarn ''Is throttled submitting first batch'',
                      PutEvents ''g'' (Some [sampleEvent ''a'']) ''{}'' 0],
            clockReads := 59704, timersSet := 1\<rparr>)"
    by (simp add: submitEvents_unfold warnMessage_throttled armTimer_def sample_gate_value
          generateBatches_empty timestampNow_def logged_def submitBatchById_def Let_def)
  from 1 2 show ?thesis ..
qed


end
